theory Spec2Isabelle
  imports Main "HOL-Library.Monad_Syntax"
begin

section \<open>JavaScript values used by the game\<close>

text \<open>
  The TypeScript sources index arrays without any bounds check. In JavaScript a read
  \<open>xs[i]\<close> outside \<open>0 .. xs.length - 1\<close> yields \<open>undefined\<close>, and a property access on
  \<open>undefined\<close> throws a \<open>TypeError\<close>. Both are written out here: an array read returns an
  option (\<open>None\<close> is \<open>undefined\<close>), and every method that can throw returns an option
  whose \<open>None\<close> is the thrown \<open>TypeError\<close>.
\<close>

definition nth_js :: "'a list \<Rightarrow> int \<Rightarrow> 'a option" where
  "nth_js xs i = (if 0 \<le> i \<and> i < int (length xs) then Some (xs ! nat i) else None)"

section \<open>bag.ts: class Bag\<close>

text \<open>
  The fields \<open>values\<close> and \<open>index\<close> of the class. The index is private, starts at 0 and is
  only ever assigned a remainder modulo \<open>values.length\<close> or
  \<open>Math.floor(Math.random() * values.length)\<close>, so it is a natural number whenever the bag
  is not empty. (For an empty bag JavaScript computes \<open>NaN\<close>; the program builds bags of
  4 rotations and of 7 shapes only, and every statement below is about non-empty bags.)
\<close>

record 'a Bag =
  values' :: "'a list"
  index :: nat

definition new_Bag :: "'a list \<Rightarrow> 'a Bag" where
  "new_Bag vs = \<lparr>values' = vs, index = 0\<rparr>"

definition Bag_current :: "'a Bag \<Rightarrow> 'a option" where
  "Bag_current b = nth_js (values' b) (int (index b))"

definition Bag_next :: "'a Bag \<Rightarrow> 'a option \<times> 'a Bag" where
  "Bag_next b =
     (let b' = b\<lparr>index := (index b + 1) mod length (values' b)\<rparr>
      in (Bag_current b', b'))"

definition Bag_previous :: "'a Bag \<Rightarrow> 'a option \<times> 'a Bag" where
  "Bag_previous b =
     (let b' = b\<lparr>index := (length (values' b) + index b - 1) mod length (values' b)\<rparr>
      in (Bag_current b', b'))"

text \<open>
  \<open>random()\<close> draws \<open>Math.floor(Math.random() * values.length)\<close>. The drawn number is the
  parameter \<open>k\<close>; \<open>Math.random()\<close> lies in \<open>[0, 1)\<close>, so \<open>k < values.length\<close> for every
  draw on a non-empty bag.
\<close>

definition Bag_random :: "nat \<Rightarrow> 'a Bag \<Rightarrow> 'a option \<times> 'a Bag" where
  "Bag_random k b = (let b' = b\<lparr>index := k\<rparr> in (Bag_current b', b'))"

section \<open>bitmap.ts: class Bitmap\<close>

text \<open>
  \<open>Style2D = string[][]\<close>; the empty style \<open>E\<close> is the empty string. A bitmap is built by
  \<open>new Bitmap(data)\<close> and holds nothing but \<open>data\<close>.
\<close>

type_synonym Style2D = "string list list"

definition E :: string where
  "E = []"

datatype Bitmap = Bitmap (data: Style2D)

definition Bitmap_emptyWithSize :: "nat \<Rightarrow> nat \<Rightarrow> Bitmap" where
  "Bitmap_emptyWithSize rows cols = Bitmap (replicate rows (replicate cols E))"

definition Bitmap_rows :: "Bitmap \<Rightarrow> nat" where
  "Bitmap_rows b = length (data b)"

text \<open>\<open>cols()\<close> is \<open>this.data[0].length\<close>: a \<open>TypeError\<close> when there is no row 0.\<close>

definition Bitmap_cols :: "Bitmap \<Rightarrow> nat option" where
  "Bitmap_cols b = (case data b of [] \<Rightarrow> None | r # _ \<Rightarrow> Some (length r))"

text \<open>
  The loops of the class, as recursion over the list of indices the loop variable runs
  through: \<open>for_any\<close> is a loop whose body may \<open>return true\<close> (and that returns \<open>false\<close>
  after its last round), \<open>for_each\<close> a loop whose body changes the state. Both stop at
  the first round that throws.
\<close>

fun for_any :: "('i \<Rightarrow> bool option) \<Rightarrow> 'i list \<Rightarrow> bool option" where
  "for_any p [] = Some False"
| "for_any p (i # is) =
     (case p i of None \<Rightarrow> None | Some True \<Rightarrow> Some True | Some False \<Rightarrow> for_any p is)"

fun for_each :: "('i \<Rightarrow> 's \<Rightarrow> 's option) \<Rightarrow> 'i list \<Rightarrow> 's \<Rightarrow> 's option" where
  "for_each f [] s = Some s"
| "for_each f (i # is) s = (case f i s of None \<Rightarrow> None | Some s' \<Rightarrow> for_each f is s')"

text \<open>
  \<open>rotate()\<close> fills \<open>rotated[col][row]\<close> with \<open>this.data[rows - row - 1][col]\<close>, for \<open>col\<close> and
  \<open>row\<close> counting up from 0. Where a row of \<open>this\<close> is shorter than row 0 the read is
  \<open>undefined\<close> and the result would not be a \<open>string[][]\<close>; the model has no bitmap for it
  and gives \<open>None\<close> there, as for the \<open>TypeError\<close> of \<open>cols()\<close>.
\<close>

definition Bitmap_rotate :: "Bitmap \<Rightarrow> Bitmap option" where
  "Bitmap_rotate this =
     do {
       let rows = Bitmap_rows this;
       cols \<leftarrow> Bitmap_cols this;
       rotated \<leftarrow> those (map (\<lambda>col.
           those (map (\<lambda>row.
               do {
                 r \<leftarrow> nth_js (data this) (int rows - int row - 1);
                 nth_js r (int col)
               }) [0..<rows])) [0..<cols]);
       Some (Bitmap rotated)
     }"

text \<open>
  \<open>allRotations()\<close>: the loop \<open>for (i = 1; i < 4; i++) rotations.push(rotations[i - 1].rotate())\<close>
  has three rounds, written out.
\<close>

definition Bitmap_allRotations :: "Bitmap \<Rightarrow> Bitmap list option" where
  "Bitmap_allRotations this =
     do {
       r1 \<leftarrow> Bitmap_rotate this;
       r2 \<leftarrow> Bitmap_rotate r1;
       r3 \<leftarrow> Bitmap_rotate r2;
       Some [this, r1, r2, r3]
     }"

text \<open>
  \<open>isOverlapping(rowOffset, colOffset, other)\<close>. The receiver is the bitmap that is placed:
  \<open>row\<close> and \<open>col\<close> run over the coordinates of \<open>other\<close>, from the offsets up to (excluding)
  \<open>maxRows\<close> and \<open>maxCols\<close>. A read \<open>other.data[row]\<close> at a negative \<open>row\<close> is \<open>undefined\<close>, and
  indexing it throws; a cell read at a negative \<open>col\<close> is \<open>undefined\<close>, which \<open>!= E\<close> holds of.
\<close>

definition Bitmap_isOverlapping :: "int \<Rightarrow> int \<Rightarrow> Bitmap \<Rightarrow> Bitmap \<Rightarrow> bool option" where
  "Bitmap_isOverlapping rowOffset colOffset this other =
     do {
       let maxRows = min (int (Bitmap_rows other)) (rowOffset + int (Bitmap_rows this));
       otherCols \<leftarrow> Bitmap_cols other;
       thisCols \<leftarrow> Bitmap_cols this;
       let maxCols = min (int otherCols) (colOffset + int thisCols);
       for_any (\<lambda>row.
         for_any (\<lambda>col.
           do {
             thisRow \<leftarrow> nth_js (data this) (row - rowOffset);
             let value = nth_js thisRow (col - colOffset);
             otherRow \<leftarrow> nth_js (data other) row;
             let otherValue = nth_js otherRow col;
             Some (value \<noteq> Some E \<and> otherValue \<noteq> Some E)
           }) [colOffset..maxCols - 1]) [rowOffset..maxRows - 1]
     }"

text \<open>
  \<open>this.data[row][col] = value\<close>: a \<open>TypeError\<close> when \<open>this.data[row]\<close> is \<open>undefined\<close>. A write
  at a \<open>col\<close> outside the row would grow the row (or set a property, for a negative
  \<open>col\<close>) and leave the rectangular arrays this model describes; it is \<open>None\<close> as well.
\<close>

definition Bitmap_set :: "int \<Rightarrow> int \<Rightarrow> string \<Rightarrow> Bitmap \<Rightarrow> Bitmap option" where
  "Bitmap_set row col v this =
     do {
       r \<leftarrow> nth_js (data this) row;
       if 0 \<le> col \<and> col < int (length r)
       then Some (Bitmap ((data this)[nat row := r[nat col := v]]))
       else None
     }"

text \<open>
  \<open>copyFrom(rowOffset, colOffset, other)\<close> changes the receiver, which is returned. A cell
  of \<open>other\<close> read as \<open>undefined\<close> (a row shorter than row 0) would be stored, since
  \<open>undefined != E\<close>; the model has no bitmap for that and gives \<open>None\<close>.
\<close>

definition Bitmap_copyFrom :: "int \<Rightarrow> int \<Rightarrow> Bitmap \<Rightarrow> Bitmap \<Rightarrow> Bitmap option" where
  "Bitmap_copyFrom rowOffset colOffset other this =
     do {
       let maxRows = min (int (Bitmap_rows this)) (rowOffset + int (Bitmap_rows other));
       thisCols \<leftarrow> Bitmap_cols this;
       otherCols \<leftarrow> Bitmap_cols other;
       let maxCols = min (int thisCols) (colOffset + int otherCols);
       for_each (\<lambda>row.
         for_each (\<lambda>col this'.
           do {
             otherRow \<leftarrow> nth_js (data other) (row - rowOffset);
             value \<leftarrow> nth_js otherRow (col - colOffset);
             if value \<noteq> E then Bitmap_set row col value this' else Some this'
           }) [colOffset..maxCols - 1]) [rowOffset..maxRows - 1] this
     }"

text \<open>
  \<open>isRowFilled(row)\<close>: the body returns \<open>false\<close> at the first cell that \<open>== E\<close>; a cell read
  as \<open>undefined\<close> is not \<open>== E\<close>.
\<close>

definition Bitmap_isRowFilled :: "int \<Rightarrow> Bitmap \<Rightarrow> bool option" where
  "Bitmap_isRowFilled row this =
     do {
       cols \<leftarrow> Bitmap_cols this;
       found \<leftarrow> for_any (\<lambda>col.
         do {
           r \<leftarrow> nth_js (data this) row;
           Some (nth_js r (int col) = Some E)
         }) [0..<cols];
       Some (\<not> found)
     }"

text \<open>
  \<open>splice(row, 1)\<close> removes the element at \<open>row\<close>; a negative \<open>row\<close> counts from the end, a
  \<open>row\<close> past the end removes nothing.
\<close>

definition splice1 :: "int \<Rightarrow> 'a list \<Rightarrow> 'a list" where
  "splice1 row xs =
     (let n = int (length xs);
          start = nat (if row < 0 then max (n + row) 0 else min row n)
      in take start xs @ drop (start + 1) xs)"

text \<open>
  \<open>removeRow(row)\<close>: first the splice, then \<open>this.cols()\<close> on what is left, then the
  \<open>unshift\<close> of a row of that many \<open>E\<close>.
\<close>

definition Bitmap_removeRow :: "int \<Rightarrow> Bitmap \<Rightarrow> Bitmap option" where
  "Bitmap_removeRow row this =
     do {
       let spliced = Bitmap (splice1 row (data this));
       cols \<leftarrow> Bitmap_cols spliced;
       Some (Bitmap (replicate cols E # data spliced))
     }"

text \<open>
  \<open>removeFilledRows()\<close>: the loop \<open>for (let row = rows - 1; row >= count; )\<close>, whose state
  is the bitmap, \<open>row\<close> and \<open>count\<close>. It returns \<open>count\<close>, here with the changed receiver.
\<close>

function removeFilledRows_loop :: "Bitmap \<Rightarrow> int \<Rightarrow> int \<Rightarrow> (int \<times> Bitmap) option" where
  "removeFilledRows_loop this row count =
     (if row \<ge> count then
        (case Bitmap_isRowFilled row this of
           None \<Rightarrow> None
         | Some True \<Rightarrow>
             (case Bitmap_removeRow row this of
                None \<Rightarrow> None
              | Some this' \<Rightarrow> removeFilledRows_loop this' row (count + 1))
         | Some False \<Rightarrow> removeFilledRows_loop this (row - 1) count)
      else Some (count, this))"
  by pat_completeness auto
termination
  by (relation "measure (\<lambda>(this, row, count). nat (row - count + 1))") auto

declare removeFilledRows_loop.simps [simp del]

definition Bitmap_removeFilledRows :: "Bitmap \<Rightarrow> (int \<times> Bitmap) option" where
  "Bitmap_removeFilledRows this = removeFilledRows_loop this (int (Bitmap_rows this) - 1) 0"

section \<open>blocks.ts: the seven blocks\<close>

text \<open>The colour constants \<open>B, C, G, O, P, R, Y\<close> of blocks.ts, and the table \<open>BLOCKS\<close>.\<close>

definition style_B :: string where "style_B = ''#0000ff''"
definition style_C :: string where "style_C = ''#00ffff''"
definition style_G :: string where "style_G = ''#00ff00''"
definition style_O :: string where "style_O = ''#ff7f00''"
definition style_P :: string where "style_P = ''#800080''"
definition style_R :: string where "style_R = ''#ff0000''"
definition style_Y :: string where "style_Y = ''#ffff00''"

definition BLOCK_I :: Bitmap where
  "BLOCK_I = Bitmap [[style_C, style_C, style_C, style_C]]"

definition BLOCK_J :: Bitmap where
  "BLOCK_J = Bitmap [[style_B, E, E],
                     [style_B, style_B, style_B]]"

definition BLOCK_L :: Bitmap where
  "BLOCK_L = Bitmap [[E, E, style_O],
                     [style_O, style_O, style_O]]"

definition BLOCK_O :: Bitmap where
  "BLOCK_O = Bitmap [[style_Y, style_Y],
                     [style_Y, style_Y]]"

definition BLOCK_S :: Bitmap where
  "BLOCK_S = Bitmap [[E, style_G, style_G],
                     [style_G, style_G, E]]"

definition BLOCK_T :: Bitmap where
  "BLOCK_T = Bitmap [[style_P, style_P, style_P],
                     [E, style_P, E]]"

definition BLOCK_Z :: Bitmap where
  "BLOCK_Z = Bitmap [[style_R, style_R, E],
                     [E, style_R, style_R]]"

definition BLOCKS :: "Bitmap list" where
  "BLOCKS = [BLOCK_I, BLOCK_J, BLOCK_L, BLOCK_O, BLOCK_S, BLOCK_T, BLOCK_Z]"

section \<open>shape.ts: class Shape\<close>

record Shape =
  rotations :: "Bitmap Bag"
  rowOffset :: int
  colOffset :: int

definition new_Shape :: "Bitmap \<Rightarrow> Shape option" where
  "new_Shape bitmap =
     do {
       all \<leftarrow> Bitmap_allRotations bitmap;
       Some \<lparr>rotations = new_Bag all, rowOffset = 0, colOffset = 0\<rparr>
     }"

definition Shape_asShapes :: "Bitmap list \<Rightarrow> Shape list option" where
  "Shape_asShapes bitmaps = those (map new_Shape bitmaps)"

text \<open>
  Every method below takes the shape and returns it as the method leaves it, next to the
  method's own result. \<open>this.rotations.current()\<close> is \<open>undefined\<close> when the index is out of
  range; calling a method on it throws.
\<close>

definition Shape_isOverlapping :: "Shape \<Rightarrow> Bitmap \<Rightarrow> bool option" where
  "Shape_isOverlapping this board =
     do {
       current \<leftarrow> Bag_current (rotations this);
       Bitmap_isOverlapping (rowOffset this) (colOffset this) current board
     }"

definition Shape_isWithin :: "Shape \<Rightarrow> Bitmap \<Rightarrow> bool option" where
  "Shape_isWithin this board =
     (if colOffset this < 0 then Some False
      else do {
        current \<leftarrow> Bag_current (rotations this);
        currentCols \<leftarrow> Bitmap_cols current;
        boardCols \<leftarrow> Bitmap_cols board;
        if colOffset this + int currentCols > int boardCols then Some False
        else do {
          let currentRows = Bitmap_rows current;
          let boardRows = Bitmap_rows board;
          if rowOffset this + int currentRows > int boardRows then Some False
          else Some True
        }
      })"

definition Shape_fitWithin :: "Shape \<Rightarrow> Bitmap \<Rightarrow> Shape option" where
  "Shape_fitWithin this board =
     do {
       let boardRows = Bitmap_rows board;
       boardCols \<leftarrow> Bitmap_cols board;
       let this1 = (if colOffset this < 0 then this\<lparr>colOffset := 0\<rparr> else this);
       current \<leftarrow> Bag_current (rotations this1);
       currentCols \<leftarrow> Bitmap_cols current;
       let this2 = (if colOffset this1 + int currentCols > int boardCols
                    then this1\<lparr>colOffset := int boardCols - int currentCols\<rparr> else this1);
       let currentRows = Bitmap_rows current;
       let this3 = (if rowOffset this2 + int currentRows > int boardRows
                    then this2\<lparr>rowOffset := int boardRows - int currentRows\<rparr> else this2);
       Some this3
     }"

text \<open>
  \<open>!this.isWithin(board) || this.isOverlapping(board)\<close>: the overlap test runs only when the
  shape is within the board.
\<close>

definition notWithin_or_overlapping :: "Shape \<Rightarrow> Bitmap \<Rightarrow> bool option" where
  "notWithin_or_overlapping this board =
     do {
       within \<leftarrow> Shape_isWithin this board;
       if \<not> within then Some True else Shape_isOverlapping this board
     }"

definition Shape_changeColOffset :: "int \<Rightarrow> Shape \<Rightarrow> Bitmap \<Rightarrow> (bool \<times> Shape) option" where
  "Shape_changeColOffset newColOffset this board =
     do {
       let before = colOffset this;
       let this1 = this\<lparr>colOffset := newColOffset\<rparr>;
       blocked \<leftarrow> notWithin_or_overlapping this1 board;
       if blocked then Some (False, this1\<lparr>colOffset := before\<rparr>) else Some (True, this1)
     }"

definition Shape_left :: "Shape \<Rightarrow> Bitmap \<Rightarrow> (bool \<times> Shape) option" where
  "Shape_left this board = Shape_changeColOffset (colOffset this - 1) this board"

definition Shape_right :: "Shape \<Rightarrow> Bitmap \<Rightarrow> (bool \<times> Shape) option" where
  "Shape_right this board = Shape_changeColOffset (colOffset this + 1) this board"

definition Shape_rotate :: "Shape \<Rightarrow> Bitmap \<Rightarrow> (bool \<times> Shape) option" where
  "Shape_rotate this board =
     do {
       let this1 = this\<lparr>rotations := snd (Bag_next (rotations this))\<rparr>;
       this2 \<leftarrow> Shape_fitWithin this1 board;
       overlapping \<leftarrow> Shape_isOverlapping this2 board;
       if overlapping
       then Some (False, this2\<lparr>rotations := snd (Bag_previous (rotations this2))\<rparr>)
       else Some (True, this2)
     }"

definition Shape_down :: "Shape \<Rightarrow> Bitmap \<Rightarrow> (bool \<times> Shape) option" where
  "Shape_down this board =
     do {
       let before = rowOffset this;
       let this1 = this\<lparr>rowOffset := rowOffset this + 1\<rparr>;
       blocked \<leftarrow> notWithin_or_overlapping this1 board;
       if blocked then Some (False, this1\<lparr>rowOffset := before\<rparr>) else Some (True, this1)
     }"

text \<open>\<open>Math.floor((a - b) / 2)\<close> is \<open>(a - b) div 2\<close>: \<open>div\<close> on \<open>int\<close> rounds down.\<close>

definition Shape_resetPosition :: "Shape \<Rightarrow> Bitmap \<Rightarrow> (bool \<times> Shape) option" where
  "Shape_resetPosition this board =
     do {
       let this1 = this\<lparr>rowOffset := 0\<rparr>;
       boardCols \<leftarrow> Bitmap_cols board;
       current \<leftarrow> Bag_current (rotations this1);
       currentCols \<leftarrow> Bitmap_cols current;
       let this2 = this1\<lparr>colOffset := (int boardCols - int currentCols) div 2\<rparr>;
       overlapping \<leftarrow> Shape_isOverlapping this2 board;
       Some (\<not> overlapping, this2)
     }"

text \<open>\<open>copyTo(board)\<close> changes the board, which is returned.\<close>

definition Shape_copyTo :: "Shape \<Rightarrow> Bitmap \<Rightarrow> Bitmap option" where
  "Shape_copyTo this board =
     do {
       current \<leftarrow> Bag_current (rotations this);
       Bitmap_copyFrom (rowOffset this) (colOffset this) current board
     }"

section \<open>game.ts: class Game\<close>

text \<open>
  The constants and the fields of the game that carry its state. The canvas and the
  drawing context are the browser's; drawing (\<open>draw\<close>, \<open>drawStats\<close>, \<open>resize\<close>) reads the
  fields below and changes none, and is left out. Time stamps are in milliseconds.
\<close>

definition ROWS :: nat where "ROWS = 15"
definition COLS :: nat where "COLS = 10"
definition UPDATE_SPEED :: int where "UPDATE_SPEED = 100"
definition STEP_SPEED :: int where "STEP_SPEED = 1000"

datatype State = PLAYING | PAUSED | GAME_OVER

record Game =
  board :: Bitmap
  shapes :: "Shape Bag"
  lastUpdate :: int
  lastStep :: int
  state :: State
  lines :: int
  score :: int

text \<open>
  \<open>this.shapes.current()\<close> is a reference to the shape object in the bag: what a method
  does to it is done to the element of the bag at the index.
\<close>

definition Bag_store_current :: "'a \<Rightarrow> 'a Bag \<Rightarrow> 'a Bag" where
  "Bag_store_current x b = b\<lparr>values' := (values' b)[index b := x]\<rparr>"

text \<open>
  \<open>nextShape()\<close>; the parameter \<open>k\<close> is the number \<open>this.shapes.random()\<close> draws.
\<close>

definition Game_nextShape :: "nat \<Rightarrow> Game \<Rightarrow> Game option" where
  "Game_nextShape k this =
     do {
       let this1 = this\<lparr>shapes := snd (Bag_random k (shapes this))\<rparr>;
       shape \<leftarrow> Bag_current (shapes this1);
       (ok, shape') \<leftarrow> Shape_resetPosition shape (board this1);
       let this2 = this1\<lparr>shapes := Bag_store_current shape' (shapes this1)\<rparr>;
       if \<not> ok then Some (this2\<lparr>state := GAME_OVER\<rparr>) else Some this2
     }"

definition Game_clear :: "nat \<Rightarrow> Game \<Rightarrow> Game option" where
  "Game_clear k this =
     Game_nextShape k
       (this\<lparr>board := Bitmap_emptyWithSize ROWS COLS, lastUpdate := 0, lastStep := 0,
             state := PLAYING, lines := 0, score := 0\<rparr>)"

text \<open>
  The constructor: \<open>resize\<close>, \<open>listenForKeyEvents\<close> and \<open>requestUpdate\<close> set up the canvas and
  the callbacks, whose calls are the events of \<open>Game_event\<close> below.
\<close>

definition new_Game :: "nat \<Rightarrow> Game option" where
  "new_Game k =
     do {
       all \<leftarrow> Shape_asShapes BLOCKS;
       Game_nextShape k
         \<lparr>board = Bitmap_emptyWithSize ROWS COLS, shapes = new_Bag all, lastUpdate = 0,
          lastStep = 0, state = PLAYING, lines = 0, score = 0\<rparr>
     }"

definition Game_left :: "Game \<Rightarrow> Game option" where
  "Game_left this =
     do {
       shape \<leftarrow> Bag_current (shapes this);
       (moved, shape') \<leftarrow> Shape_left shape (board this);
       Some (this\<lparr>shapes := Bag_store_current shape' (shapes this)\<rparr>)
     }"

definition Game_right :: "Game \<Rightarrow> Game option" where
  "Game_right this =
     do {
       shape \<leftarrow> Bag_current (shapes this);
       (moved, shape') \<leftarrow> Shape_right shape (board this);
       Some (this\<lparr>shapes := Bag_store_current shape' (shapes this)\<rparr>)
     }"

definition Game_rotate :: "Game \<Rightarrow> Game option" where
  "Game_rotate this =
     do {
       shape \<leftarrow> Bag_current (shapes this);
       (rotated, shape') \<leftarrow> Shape_rotate shape (board this);
       Some (this\<lparr>shapes := Bag_store_current shape' (shapes this)\<rparr>)
     }"

text \<open>
  The body of \<open>if (!this.shapes.current().down(this.board)) { ... }\<close> in \<open>moveDown()\<close>: the
  shape is copied to the board, the filled rows are removed, lines and score are
  updated, and the next shape is drawn.
\<close>

definition Game_landed :: "nat \<Rightarrow> Game \<Rightarrow> Game option" where
  "Game_landed k this =
     do {
       shape \<leftarrow> Bag_current (shapes this);
       board1 \<leftarrow> Shape_copyTo shape (board this);
       (removed, board2) \<leftarrow> Bitmap_removeFilledRows board1;
       let this1 = this\<lparr>board := board2, lines := lines this + removed\<rparr>;
       let this2 = (if removed < 4 then this1\<lparr>score := score this1 + lines this1 * 10\<rparr>
                    else this1\<lparr>score := score this1 + 1000\<rparr>);
       Game_nextShape k this2
     }"

definition Game_moveDown :: "nat \<Rightarrow> Game \<Rightarrow> (bool \<times> Game) option" where
  "Game_moveDown k this =
     do {
       shape \<leftarrow> Bag_current (shapes this);
       (moved, shape') \<leftarrow> Shape_down shape (board this);
       let this1 = this\<lparr>shapes := Bag_store_current shape' (shapes this)\<rparr>;
       if \<not> moved then do { this2 \<leftarrow> Game_landed k this1; Some (False, this2) }
       else Some (True, this1)
     }"

definition Game_down :: "nat \<Rightarrow> Game \<Rightarrow> Game option" where
  "Game_down k this = map_option snd (Game_moveDown k this)"

text \<open>
  \<open>throwDown()\<close> is \<open>while (this.moveDown()) {}\<close>. Nothing in the loop bounds it, so it is a
  partial function: \<open>None\<close> is a loop that does not return (or a throw inside it).
\<close>

partial_function (option) Game_throwDown :: "nat \<Rightarrow> Game \<Rightarrow> Game option" where
  "Game_throwDown k this =
     Game_moveDown k this \<bind> (\<lambda>(moved, this'). if moved then Game_throwDown k this' else Some this')"

declare Game_throwDown.simps [code]

definition Game_togglePaused :: "Game \<Rightarrow> Game" where
  "Game_togglePaused this =
     (case state this of
        PLAYING \<Rightarrow> this\<lparr>state := PAUSED\<rparr>
      | PAUSED \<Rightarrow> this\<lparr>state := PLAYING\<rparr>
      | GAME_OVER \<Rightarrow> this)"

text \<open>\<open>onControlKey\<close> and \<open>onPlayKey\<close> return whether the key was used, and the game.\<close>

definition Game_onControlKey :: "nat \<Rightarrow> string \<Rightarrow> Game \<Rightarrow> (bool \<times> Game) option" where
  "Game_onControlKey k key this =
     (if key = ''enter'' then Some (True, Game_togglePaused this)
      else if key = ''r'' then map_option (Pair True) (Game_clear k this)
      else Some (False, this))"

definition Game_onPlayKey :: "nat \<Rightarrow> string \<Rightarrow> Game \<Rightarrow> (bool \<times> Game) option" where
  "Game_onPlayKey k key this =
     (if key = ''arrowleft'' then map_option (Pair True) (Game_left this)
      else if key = ''arrowright'' then map_option (Pair True) (Game_right this)
      else if key = ''arrowup'' then map_option (Pair True) (Game_rotate this)
      else if key = ''arrowdown'' then map_option (Pair True) (Game_down k this)
      else if key = ''spacebar'' \<or> key = '' '' then map_option (Pair True) (Game_throwDown k this)
      else Some (False, this))"

definition Game_onKeyEvent :: "nat \<Rightarrow> string \<Rightarrow> Game \<Rightarrow> Game option" where
  "Game_onKeyEvent k key this =
     do {
       (used, this1) \<leftarrow> Game_onControlKey k key this;
       if \<not> used \<and> state this1 = PLAYING then map_option snd (Game_onPlayKey k key this1)
       else Some this1
     }"

definition Game_update :: "nat \<Rightarrow> int \<Rightarrow> Game \<Rightarrow> Game option" where
  "Game_update k now this =
     do {
       this1 \<leftarrow> (if state this = PLAYING \<and> now - lastStep this > STEP_SPEED
                 then do { (moved, this') \<leftarrow> Game_moveDown k this; Some (this'\<lparr>lastStep := now\<rparr>) }
                 else Some this);
       if now - lastUpdate this1 > UPDATE_SPEED then Some (this1\<lparr>lastUpdate := now\<rparr>)
       else Some this1
     }"

text \<open>
  What happens to a running game: a key is pressed (the key, lower-cased, reaches
  \<open>onKeyEvent\<close>) or an animation frame is due (\<open>update(now)\<close>). Each takes the number a
  call of \<open>random()\<close> would draw; an event draws at most once. The reachable games are
  those the constructor and these events produce, for draws \<open>k\<close> below the 7 shapes.
\<close>

datatype Event = KeyDown string | Frame int

definition Game_event :: "nat \<Rightarrow> Event \<Rightarrow> Game \<Rightarrow> Game option" where
  "Game_event k e this =
     (case e of KeyDown key \<Rightarrow> Game_onKeyEvent k key this | Frame now \<Rightarrow> Game_update k now this)"

inductive reachable :: "Game \<Rightarrow> bool" where
  reachable_new: "k < 7 \<Longrightarrow> new_Game k = Some g \<Longrightarrow> reachable g"
| reachable_event: "reachable g \<Longrightarrow> k < 7 \<Longrightarrow> Game_event k e g = Some g' \<Longrightarrow> reachable g'"

text \<open>A sequence of events, each with the number its draw would give.\<close>

fun Game_events :: "(nat \<times> Event) list \<Rightarrow> Game \<Rightarrow> Game option" where
  "Game_events [] g = Some g"
| "Game_events ((k, e) # evs) g =
     (case Game_event k e g of None \<Rightarrow> None | Some g' \<Rightarrow> Game_events evs g')"

text \<open>
  A play of the game in which the first two shapes drawn are both the I block: the
  first is turned upright, moved to column 6 and thrown down; the second (the same
  shape object, still upright) is moved to column 9 and lowered eleven times, to the
  bottom of the board.
\<close>

definition upright_I_play :: "(nat \<times> Event) list" where
  "upright_I_play =
     [(0, KeyDown ''arrowup'')] @ replicate 3 (0, KeyDown ''arrowright'') @ [(0, KeyDown '' '')]
     @ replicate 5 (0, KeyDown ''arrowright'') @ replicate 11 (0, KeyDown ''arrowdown'')"

section \<open>Grids of the data model\<close>

text \<open>
  A grid with \<open>R\<close> rows and \<open>C\<close> columns: \<open>R\<close> rows, each of length \<open>C\<close>.
\<close>

definition rectangular :: "Bitmap \<Rightarrow> nat \<Rightarrow> nat \<Rightarrow> bool" where
  "rectangular b R C = (length (data b) = R \<and> list_all (\<lambda>r. length r = C) (data b))"

text \<open>
  The overlap test in the words of the specification: some cell of \<open>other\<close>, placed at the
  offset onto the receiver's coordinates, lies inside the receiver and is not \<open>E\<close> in
  both grids; cells of \<open>other\<close> that fall outside the receiver are ignored.
\<close>

definition overlaps_spec :: "int \<Rightarrow> int \<Rightarrow> Bitmap \<Rightarrow> Bitmap \<Rightarrow> bool" where
  "overlaps_spec rowOff colOff receiver other =
     list_ex (\<lambda>r. list_ex (\<lambda>c.
         (case nth_js (data receiver) (rowOff + int r) of
            None \<Rightarrow> False
          | Some receiverRow \<Rightarrow>
              (case nth_js receiverRow (colOff + int c) of
                 None \<Rightarrow> False
               | Some v \<Rightarrow> v \<noteq> E \<and> data other ! r ! c \<noteq> E)))
       [0..<length (data other ! r)]) [0..<length (data other)]"

text \<open>A fully occupied row: none of its cells is \<open>E\<close>.\<close>

definition filled :: "string list \<Rightarrow> bool" where
  "filled r = list_all (\<lambda>v. v \<noteq> E) r"

text \<open>
  The number of columns of a grid (0 when it has no row), and the grids \<open>cols()\<close> is
  defined on: at least one row, all rows as long as row 0.
\<close>

definition width :: "Bitmap \<Rightarrow> nat" where
  "width b = (case data b of [] \<Rightarrow> 0 | r # _ \<Rightarrow> length r)"

definition grid :: "Bitmap \<Rightarrow> bool" where
  "grid b = (1 \<le> Bitmap_rows b \<and> rectangular b (Bitmap_rows b) (width b))"

text \<open>
  A piece placed at an offset that is not negative collides with the board when one of
  its cells lies inside the board and is not \<open>E\<close> in both.
\<close>

definition collides :: "int \<Rightarrow> int \<Rightarrow> Bitmap \<Rightarrow> Bitmap \<Rightarrow> bool" where
  "collides rowOff colOff piece bd =
     list_ex (\<lambda>r. list_ex (\<lambda>c.
         rowOff + int r < int (Bitmap_rows bd) \<and> colOff + int c < int (width bd)
         \<and> data piece ! r ! c \<noteq> E
         \<and> data bd ! nat (rowOff + int r) ! nat (colOff + int c) \<noteq> E)
       [0..<width piece]) [0..<Bitmap_rows piece]"

text \<open>
  The shapes of a game on a board: every rotation is a grid no larger than the board,
  and the index of the rotations is in range. A shape lies within the board when its
  current rotation, at the offsets, covers cells of the board only.
\<close>

definition fits :: "Bitmap \<Rightarrow> Bitmap \<Rightarrow> bool" where
  "fits piece bd = (grid piece \<and> Bitmap_rows piece \<le> Bitmap_rows bd \<and> width piece \<le> width bd)"

definition rot_ok :: "Shape \<Rightarrow> Bitmap \<Rightarrow> bool" where
  "rot_ok sh bd =
     (index (rotations sh) < length (values' (rotations sh))
      \<and> list_all (\<lambda>piece. fits piece bd) (values' (rotations sh)))"

definition within :: "Shape \<Rightarrow> Bitmap \<Rightarrow> bool" where
  "within sh bd =
     (case Bag_current (rotations sh) of
        None \<Rightarrow> False
      | Some cur \<Rightarrow>
          0 \<le> colOffset sh \<and> colOffset sh + int (width cur) \<le> int (width bd)
          \<and> 0 \<le> rowOffset sh \<and> rowOffset sh + int (Bitmap_rows cur) \<le> int (Bitmap_rows bd))"

text \<open>
  A game whose calls do not throw: the board is a grid with at least two rows, every
  shape of the bag has rotations that fit the board, the index of the bag is in range,
  and the shape at the index lies within the board.
\<close>

definition shapes_ok :: "Game \<Rightarrow> bool" where
  "shapes_ok g =
     (grid (board g) \<and> 2 \<le> Bitmap_rows (board g)
      \<and> list_all (\<lambda>sh. rot_ok sh (board g)) (values' (shapes g)))"

definition game_ok :: "Game \<Rightarrow> bool" where
  "game_ok g =
     (shapes_ok g \<and> index (shapes g) < length (values' (shapes g))
      \<and> (case Bag_current (shapes g) of None \<Rightarrow> False | Some sh \<Rightarrow> within sh (board g)))"

text \<open>
  The calls of \<open>moveDown()\<close> that one \<open>throwDown()\<close> makes: \<open>throwDown_calls k g n gl g'\<close>
  says that the loop started on \<open>g\<close> calls \<open>moveDown()\<close> \<open>n\<close> times, that the first \<open>n - 1\<close>
  calls return \<open>true\<close> and lead to \<open>gl\<close>, and that the last call, on \<open>gl\<close>, returns \<open>false\<close>
  and leaves \<open>g'\<close>.
\<close>

inductive throwDown_calls :: "nat \<Rightarrow> Game \<Rightarrow> nat \<Rightarrow> Game \<Rightarrow> Game \<Rightarrow> bool" where
  last_call: "Game_moveDown k g = Some (False, g') \<Longrightarrow> throwDown_calls k g 1 g g'"
| next_call: "Game_moveDown k g = Some (True, g1) \<Longrightarrow> throwDown_calls k g1 n gl g'
     \<Longrightarrow> throwDown_calls k g (Suc n) gl g'"



text \<open>The games on the 15 by 10 board with the seven shapes.\<close>

definition game_inv :: "Game \<Rightarrow> bool" where
  "game_inv g =
     (game_ok g \<and> Bitmap_rows (board g) = ROWS \<and> width (board g) = COLS
      \<and> length (values' (shapes g)) = 7)"

section \<open>Properties of Bag\<close>

lemma Bag_next_snd:
  "snd (Bag_next b) = b\<lparr>index := (index b + 1) mod length (values' b)\<rparr>"
  by (simp add: Bag_next_def Let_def)

lemma Bag_previous_snd:
  "snd (Bag_previous b) = b\<lparr>index := (length (values' b) + index b - 1) mod length (values' b)\<rparr>"
  by (simp add: Bag_previous_def Let_def)

lemma Bag_next_iterate:
  "((snd \<circ> Bag_next) ^^ k) b = b\<lparr>index := (index b + k) mod length (values' b)\<rparr>"
  if "index b < length (values' b)"
  using that
proof (induction k)
  case 0
  then show ?case by simp
next
  case (Suc k)
  then show ?case by (simp add: Bag_next_snd mod_Suc_eq)
qed

text \<open>
  Claim C9. For a bag of length at least 1 whose index is in range, \<open>length\<close> calls of
  \<open>next()\<close> bring the bag (index and current value) back to where it was, \<open>previous()\<close>
  after \<open>next()\<close> restores the bag and returns the original current value, and so does
  \<open>next()\<close> after \<open>previous()\<close>.
\<close>

theorem Bag_next_previous_cycle:
  assumes "1 \<le> length (values' b)" and "index b < length (values' b)"
  shows "((snd \<circ> Bag_next) ^^ length (values' b)) b = b
       \<and> Bag_current (((snd \<circ> Bag_next) ^^ length (values' b)) b) = Bag_current b
       \<and> Bag_previous (snd (Bag_next b)) = (Bag_current b, b)
       \<and> Bag_next (snd (Bag_previous b)) = (Bag_current b, b)"
proof -
  let ?n = "length (values' b)"
  have cyc: "((snd \<circ> Bag_next) ^^ ?n) b = b"
    using assms by (simp add: Bag_next_iterate)
  have "(?n + (index b + 1) mod ?n - 1) mod ?n = index b"
  proof (cases "index b + 1 = ?n")
    case True
    then show ?thesis using assms by simp
  next
    case False
    then have "index b + 1 < ?n" using assms by linarith
    then show ?thesis by simp
  qed
  then have pn: "Bag_previous (snd (Bag_next b)) = (Bag_current b, b)"
    by (simp add: Bag_previous_def Bag_next_snd Bag_current_def Let_def)
  have "((?n + index b - 1) mod ?n + 1) mod ?n = index b"
  proof (cases "index b = 0")
    case True
    then show ?thesis using assms by (simp add: mod_Suc)
  next
    case False
    then have "(?n + index b - 1) mod ?n = index b - 1"
      using assms by (simp add: mod_if)
    then show ?thesis using False assms by simp
  qed
  then have np: "Bag_next (snd (Bag_previous b)) = (Bag_current b, b)"
    by (simp add: Bag_previous_snd Bag_next_def Bag_current_def Let_def)
  from cyc pn np show ?thesis by simp
qed

theorem Bag_next_previous_cycle_witness:
  "((snd \<circ> Bag_next) ^^ 3) \<lparr>values' = [''a'', ''b'', ''c''], index = 1\<rparr>
     = \<lparr>values' = [''a'', ''b'', ''c''], index = 1\<rparr>
   \<and> Bag_previous (snd (Bag_next \<lparr>values' = [''a'', ''b'', ''c''], index = 1\<rparr>))
     = (Some ''b'', \<lparr>values' = [''a'', ''b'', ''c''], index = 1\<rparr>)
   \<and> Bag_next (snd (Bag_previous \<lparr>values' = [''a'', ''b'', ''c''], index = 1\<rparr>))
     = (Some ''b'', \<lparr>values' = [''a'', ''b'', ''c''], index = 1\<rparr>)"
  using Bag_next_previous_cycle [of "\<lparr>values' = [''a'', ''b'', ''c''], index = 1\<rparr>"]
  by (simp add: Bag_current_def nth_js_def numeral_3_eq_3)

section \<open>Properties of Bitmap\<close>

lemma nth_js_nat: "nth_js xs (int i) = (if i < length xs then Some (xs ! i) else None)"
  by (simp add: nth_js_def)

lemma nth_js_Some: "0 \<le> i \<Longrightarrow> nat i < length xs \<Longrightarrow> nth_js xs i = Some (xs ! nat i)"
  by (auto simp: nth_js_def)

lemma those_map_Some:
  "(\<And>x. x \<in> set xs \<Longrightarrow> f x = Some (g x)) \<Longrightarrow> those (map f xs) = Some (map g xs)"
  by (induction xs) auto

lemma for_any_Some:
  "(\<And>x. x \<in> set xs \<Longrightarrow> p x = Some (q x)) \<Longrightarrow> for_any p xs = Some (\<exists>x\<in>set xs. q x)"
  by (induction xs) (auto split: bool.splits)

lemma rectangular_cols: "rectangular b R C \<Longrightarrow> 1 \<le> R \<Longrightarrow> Bitmap_cols b = Some C"
  by (cases b) (auto simp: rectangular_def Bitmap_cols_def split: list.splits)

lemma rectangular_rows: "rectangular b R C \<Longrightarrow> Bitmap_rows b = R"
  by (simp add: rectangular_def Bitmap_rows_def)

lemma rectangular_row_length: "rectangular b R C \<Longrightarrow> r < R \<Longrightarrow> length (data b ! r) = C"
  by (simp add: rectangular_def list_all_length)

lemma rectangular_width: "rectangular b R C \<Longrightarrow> 1 \<le> R \<Longrightarrow> width b = C"
  by (cases b) (auto simp: rectangular_def width_def split: list.splits)

subsection \<open>rotate\<close>

lemma Bitmap_rotate_rectangular:
  assumes "rectangular b R C" and "1 \<le> R"
  shows "Bitmap_rotate b =
           Some (Bitmap (map (\<lambda>c. map (\<lambda>r. data b ! (R - 1 - r) ! c) [0..<R]) [0..<C]))"
proof -
  have cell: "(nth_js (data b) (int R - int r - 1) \<bind> (\<lambda>row. nth_js row (int c)))
                = Some (data b ! (R - 1 - r) ! c)" if "r < R" "c < C" for r c
  proof -
    have "int R - int r - 1 = int (R - 1 - r)" using that by linarith
    moreover have "R - 1 - r < R" using that by linarith
    ultimately show ?thesis
      using assms that rectangular_row_length [of b R C "R - 1 - r"]
      by (simp add: rectangular_def nth_js_nat del: of_nat_diff)
  qed
  have row: "those (map (\<lambda>r. nth_js (data b) (int R - int r - 1) \<bind> (\<lambda>row. nth_js row (int c))) [0..<R])
                = Some (map (\<lambda>r. data b ! (R - 1 - r) ! c) [0..<R])" if "c < C" for c
    by (rule those_map_Some) (simp add: cell that)
  have "those (map (\<lambda>c. those (map (\<lambda>r. nth_js (data b) (int R - int r - 1) \<bind> (\<lambda>row. nth_js row (int c))) [0..<R])) [0..<C])
          = Some (map (\<lambda>c. map (\<lambda>r. data b ! (R - 1 - r) ! c) [0..<R]) [0..<C])"
    by (rule those_map_Some) (simp add: row)
  then show ?thesis
    using assms by (simp add: Bitmap_rotate_def rectangular_cols rectangular_rows)
qed

text \<open>
  Claim C6. For a grid with \<open>R \<ge> 1\<close> rows and \<open>C\<close> columns, \<open>rotate()\<close> returns a grid with
  \<open>C\<close> rows and \<open>R\<close> columns whose cell \<open>[c][r]\<close> is the cell \<open>[R - 1 - r][c]\<close> of the
  receiver. The method assigns nothing of the receiver: it returns the new bitmap only.
\<close>

theorem Bitmap_rotate_clockwise:
  assumes "rectangular b R C" and "1 \<le> R"
  shows "\<exists>rotated. Bitmap_rotate b = Some rotated \<and> rectangular rotated C R
           \<and> (\<forall>c<C. \<forall>r<R. data rotated ! c ! r = data b ! (R - 1 - r) ! c)"
  using Bitmap_rotate_rectangular [OF assms]
  by (simp add: rectangular_def list_all_length)

theorem Bitmap_rotate_clockwise_witness:
  "rectangular BLOCK_J 2 3 \<and> (1::nat) \<le> 2
   \<and> Bitmap_rotate BLOCK_J = Some (Bitmap [[style_B, style_B], [style_B, E], [style_B, E]])
   \<and> (\<exists>rotated. Bitmap_rotate BLOCK_J = Some rotated \<and> rectangular rotated 3 2
           \<and> data rotated ! 2 ! 1 = data BLOCK_J ! 0 ! 2)"
proof -
  have h: "rectangular BLOCK_J 2 3"
    by (simp add: rectangular_def BLOCK_J_def E_def style_B_def)
  have e: "Bitmap_rotate BLOCK_J = Some (Bitmap [[style_B, style_B], [style_B, E], [style_B, E]])"
    by code_simp
  from Bitmap_rotate_clockwise [OF h] obtain rotated where
    r: "Bitmap_rotate BLOCK_J = Some rotated" "rectangular rotated 3 2"
       "\<forall>c<3. \<forall>r<2. data rotated ! c ! r = data BLOCK_J ! (2 - 1 - r) ! c"
    by auto
  from r(3) have "data rotated ! 2 ! 1 = data BLOCK_J ! 0 ! 2" by simp
  with h e r show ?thesis by auto
qed

lemma Bitmap_rotate_cells:
  assumes "rectangular b R C" and "1 \<le> R"
  obtains b' where "Bitmap_rotate b = Some b'" and "rectangular b' C R"
    and "\<And>c r. c < C \<Longrightarrow> r < R \<Longrightarrow> data b' ! c ! r = data b ! (R - 1 - r) ! c"
  using Bitmap_rotate_rectangular [OF assms] that
  by (simp add: rectangular_def list_all_length)

text \<open>
  Four rotations. For a grid with \<open>R \<ge> 1\<close> rows and \<open>C \<ge> 1\<close> columns, \<open>allRotations()\<close> returns the
  receiver followed by three rotated grids of \<open>C\<close> by \<open>R\<close>, \<open>R\<close> by \<open>C\<close> and \<open>C\<close> by \<open>R\<close> cells, and
  rotating the last of them gives the receiver again: the four orientations of a shape form a
  cycle.
\<close>

theorem Bitmap_rotate_four_times:
  assumes "rectangular b R C" and "1 \<le> R" and "1 \<le> C"
  shows "\<exists>r1 r2 r3. Bitmap_allRotations b = Some [b, r1, r2, r3]
           \<and> rectangular r1 C R \<and> rectangular r2 R C \<and> rectangular r3 C R
           \<and> Bitmap_rotate r3 = Some b"
proof -
  from Bitmap_rotate_cells [OF assms(1,2)] obtain r1 where r1: "Bitmap_rotate b = Some r1"
    "rectangular r1 C R" "\<And>c r. c < C \<Longrightarrow> r < R \<Longrightarrow> data r1 ! c ! r = data b ! (R - 1 - r) ! c"
    by blast
  from Bitmap_rotate_cells [OF r1(2) assms(3)] obtain r2 where r2: "Bitmap_rotate r1 = Some r2"
    "rectangular r2 R C" "\<And>c r. c < R \<Longrightarrow> r < C \<Longrightarrow> data r2 ! c ! r = data r1 ! (C - 1 - r) ! c"
    by blast
  from Bitmap_rotate_cells [OF r2(2) assms(2)] obtain r3 where r3: "Bitmap_rotate r2 = Some r3"
    "rectangular r3 C R" "\<And>c r. c < C \<Longrightarrow> r < R \<Longrightarrow> data r3 ! c ! r = data r2 ! (R - 1 - r) ! c"
    by blast
  from Bitmap_rotate_cells [OF r3(2) assms(3)] obtain r4 where r4: "Bitmap_rotate r3 = Some r4"
    "rectangular r4 R C" "\<And>c r. c < R \<Longrightarrow> r < C \<Longrightarrow> data r4 ! c ! r = data r3 ! (C - 1 - r) ! c"
    by blast
  have cell: "data r4 ! i ! j = data b ! i ! j" if "i < R" "j < C" for i j
  proof -
    have "data r4 ! i ! j = data r3 ! (C - 1 - j) ! i" using that by (rule r4(3))
    also have "\<dots> = data r2 ! (R - 1 - i) ! (C - 1 - j)" using that by (intro r3(3)) simp_all
    also have "\<dots> = data r1 ! (C - 1 - (C - 1 - j)) ! (R - 1 - i)"
      using that by (intro r2(3)) simp_all
    also have "\<dots> = data b ! (R - 1 - (R - 1 - i)) ! (C - 1 - (C - 1 - j))"
      using that by (intro r1(3)) simp_all
    also have "\<dots> = data b ! i ! j" using that by simp
    finally show ?thesis .
  qed
  have "data r4 = data b"
  proof (rule nth_equalityI)
    show "length (data r4) = length (data b)"
      using r4(2) assms(1) by (simp add: rectangular_def)
  next
    fix i assume "i < length (data r4)"
    then have i: "i < R" using r4(2) by (simp add: rectangular_def)
    show "data r4 ! i = data b ! i"
    proof (rule nth_equalityI)
      show "length (data r4 ! i) = length (data b ! i)"
        using i r4(2) assms(1) by (simp add: rectangular_row_length)
    next
      fix j assume "j < length (data r4 ! i)"
      then have "j < C" using i r4(2) by (simp add: rectangular_row_length)
      with i show "data r4 ! i ! j = data b ! i ! j" by (rule cell)
    qed
  qed
  then have "r4 = b" by (simp add: Bitmap.expand)
  with r1 r2 r3 r4 show ?thesis by (simp add: Bitmap_allRotations_def)
qed

theorem Bitmap_rotate_four_times_witness:
  "rectangular BLOCK_S 2 3
   \<and> Bitmap_allRotations BLOCK_S
       = Some [BLOCK_S,
               Bitmap [[style_G, E], [style_G, style_G], [E, style_G]],
               Bitmap [[E, style_G, style_G], [style_G, style_G, E]],
               Bitmap [[style_G, E], [style_G, style_G], [E, style_G]]]
   \<and> Bitmap_rotate (Bitmap [[style_G, E], [style_G, style_G], [E, style_G]]) = Some BLOCK_S"
proof -
  have h: "rectangular BLOCK_S 2 3" by (simp add: rectangular_def BLOCK_S_def)
  have e: "Bitmap_allRotations BLOCK_S
       = Some [BLOCK_S,
               Bitmap [[style_G, E], [style_G, style_G], [E, style_G]],
               Bitmap [[E, style_G, style_G], [style_G, style_G, E]],
               Bitmap [[style_G, E], [style_G, style_G], [E, style_G]]]"
    by code_simp
  from Bitmap_rotate_four_times [OF h] e
  have "Bitmap_rotate (Bitmap [[style_G, E], [style_G, style_G], [E, style_G]]) = Some BLOCK_S"
    by auto
  with h e show ?thesis by simp
qed

subsection \<open>isOverlapping\<close>

lemma Bitmap_isOverlapping_rectangular:
  assumes t: "rectangular this R C" "1 \<le> R"
    and ot: "rectangular other R' C'" "1 \<le> R'"
  shows "Bitmap_isOverlapping (int ro) (int co) this other =
           Some (\<exists>r<R. \<exists>c<C. ro + r < R' \<and> co + c < C'
                   \<and> data this ! r ! c \<noteq> E \<and> data other ! (ro + r) ! (co + c) \<noteq> E)"
proof -
  let ?maxRows = "min (int R') (int ro + int R)"
  let ?maxCols = "min (int C') (int co + int C)"
  let ?cell = "\<lambda>row col. nth_js (data this) (row - int ro) \<bind> (\<lambda>thisRow.
                 nth_js (data other) row \<bind> (\<lambda>otherRow.
                   Some (nth_js thisRow (col - int co) \<noteq> Some E \<and> nth_js otherRow col \<noteq> Some E)))"
  let ?q = "\<lambda>row col. data this ! nat (row - int ro) ! nat (col - int co) \<noteq> E
                       \<and> data other ! nat row ! nat col \<noteq> E"
  have cell: "?cell row col = Some (?q row col)"
    if "row \<in> set [int ro..?maxRows - 1]" "col \<in> set [int co..?maxCols - 1]" for row col
  proof -
    from that have r: "nat (row - int ro) < R" "nat row < R'" "0 \<le> row - int ro" "0 \<le> row"
      and c: "nat (col - int co) < C" "nat col < C'" "0 \<le> col - int co" "0 \<le> col"
      by auto
    have 1: "nth_js (data this) (row - int ro) = Some (data this ! nat (row - int ro))"
      using r t by (intro nth_js_Some) (simp_all add: rectangular_def)
    have 2: "nth_js (data other) row = Some (data other ! nat row)"
      using r ot by (intro nth_js_Some) (simp_all add: rectangular_def)
    have 3: "nth_js (data this ! nat (row - int ro)) (col - int co)
               = Some (data this ! nat (row - int ro) ! nat (col - int co))"
      using r c t by (intro nth_js_Some) (simp_all add: rectangular_row_length)
    have 4: "nth_js (data other ! nat row) col = Some (data other ! nat row ! nat col)"
      using r c ot by (intro nth_js_Some) (simp_all add: rectangular_row_length)
    show ?thesis by (simp only: 1 2 3 4 bind.bind_lunit option.inject)
  qed
  have inner: "for_any (?cell row) [int co..?maxCols - 1]
                 = Some (\<exists>col\<in>set [int co..?maxCols - 1]. ?q row col)"
    if "row \<in> set [int ro..?maxRows - 1]" for row
    by (rule for_any_Some) (simp only: cell [OF that])
  have "for_any (\<lambda>row. for_any (?cell row) [int co..?maxCols - 1]) [int ro..?maxRows - 1]
          = Some (\<exists>row\<in>set [int ro..?maxRows - 1]. \<exists>col\<in>set [int co..?maxCols - 1]. ?q row col)"
    by (rule for_any_Some) (simp only: inner)
  moreover have "(\<exists>row\<in>set [int ro..?maxRows - 1]. \<exists>col\<in>set [int co..?maxCols - 1]. ?q row col)
       \<longleftrightarrow> (\<exists>r<R. \<exists>c<C. ro + r < R' \<and> co + c < C'
                   \<and> data this ! r ! c \<noteq> E \<and> data other ! (ro + r) ! (co + c) \<noteq> E)"
    (is "?L \<longleftrightarrow> ?R")
  proof
    assume ?L
    then obtain row col where rc: "int ro \<le> row" "row < ?maxRows" "int co \<le> col" "col < ?maxCols"
      and q: "?q row col" by auto
    define r c where "r = nat (row - int ro)" and "c = nat (col - int co)"
    have "nat row = ro + r" "nat col = co + c" "r < R" "c < C" "ro + r < R'" "co + c < C'"
      using rc by (auto simp: r_def c_def)
    with q show ?R unfolding r_def [symmetric] c_def [symmetric] by auto
  next
    assume ?R
    then obtain r c where rc: "r < R" "c < C" "ro + r < R'" "co + c < C'"
      and q: "data this ! r ! c \<noteq> E" "data other ! (ro + r) ! (co + c) \<noteq> E" by auto
    have "int (ro + r) \<in> set [int ro..?maxRows - 1]" "int (co + c) \<in> set [int co..?maxCols - 1]"
      using rc by auto
    moreover have "nat (int (ro + r) - int ro) = r" "nat (int (co + c) - int co) = c"
      by simp_all
    then have "?q (int (ro + r)) (int (co + c))"
      using q by (simp only: nat_int) simp
    ultimately show ?L by blast
  qed
  ultimately show ?thesis
    using assms
    by (simp add: Bitmap_isOverlapping_def rectangular_cols rectangular_rows Let_def)
qed

text \<open>
  Claim C3, as the code has it. For rectangular grids with at least one row and offsets
  that are not negative, \<open>receiver.isOverlapping(rowOffset, colOffset, other)\<close> is true
  exactly when some cell of the receiver, placed at the offset onto the coordinates of
  \<open>other\<close>, lies inside \<open>other\<close> and is not \<open>E\<close> in both grids. Cells of the receiver that
  fall outside \<open>other\<close> (to the right or below) are not looked at.
\<close>

theorem Bitmap_isOverlapping_placed:
  assumes "rectangular receiver R C" and "1 \<le> R"
    and "rectangular other R' C'" and "1 \<le> R'"
    and "0 \<le> rowOff" and "0 \<le> colOff"
  shows "Bitmap_isOverlapping rowOff colOff receiver other =
           Some (\<exists>r<R. \<exists>c<C. rowOff + int r < int R' \<and> colOff + int c < int C'
                   \<and> data receiver ! r ! c \<noteq> E
                   \<and> data other ! nat (rowOff + int r) ! nat (colOff + int c) \<noteq> E)"
proof -
  have "nat (rowOff + int r) = nat rowOff + r" "nat (colOff + int c) = nat colOff + c"
    "rowOff + int r < int R' \<longleftrightarrow> nat rowOff + r < R'"
    "colOff + int c < int C' \<longleftrightarrow> nat colOff + c < C'" for r c
    using assms(5,6) by linarith+
  then show ?thesis
    using Bitmap_isOverlapping_rectangular [OF assms(1-4), of "nat rowOff" "nat colOff"] assms(5,6)
    by simp
qed

theorem Bitmap_isOverlapping_placed_witness:
  "rectangular BLOCK_O 2 2 \<and> rectangular (Bitmap [[E, E, E], [E, E, E], [E, E, style_R]]) 3 3
   \<and> Bitmap_isOverlapping 1 1 BLOCK_O (Bitmap [[E, E, E], [E, E, E], [E, E, style_R]]) = Some True
   \<and> Bitmap_isOverlapping 1 2 BLOCK_O (Bitmap [[E, E, E], [E, style_R, E], [E, E, E]]) = Some False"
proof -
  let ?b1 = "Bitmap [[E, E, E], [E, E, E], [E, E, style_R]]"
  let ?b2 = "Bitmap [[E, E, E], [E, style_R, E], [E, E, E]]"
  have o: "rectangular BLOCK_O 2 2"
    by (simp add: rectangular_def BLOCK_O_def)
  have b: "rectangular ?b1 3 3" "rectangular ?b2 3 3"
    by (simp_all add: rectangular_def)
  have "data BLOCK_O ! 1 ! 1 \<noteq> E \<and> data ?b1 ! nat (1 + int 1) ! nat (1 + int 1) \<noteq> E"
    by (simp add: BLOCK_O_def style_Y_def style_R_def E_def numeral_2_eq_2)
  then have "\<exists>r<2. \<exists>c<2. 1 + int r < int 3 \<and> 1 + int c < int 3
                   \<and> data BLOCK_O ! r ! c \<noteq> E
                   \<and> data ?b1 ! nat (1 + int r) ! nat (1 + int c) \<noteq> E"
    by (intro exI [of _ 1] conjI) simp_all
  then have 1: "Bitmap_isOverlapping 1 1 BLOCK_O ?b1 = Some True"
    using Bitmap_isOverlapping_placed [OF o _ b(1), of 1 1] by simp
  have "Bitmap_isOverlapping 1 2 BLOCK_O ?b2 = Some False"
    by code_simp
  with o b 1 show ?thesis by simp
qed

text \<open>
  The claim as the specification words it fails on the code. At the offset \<open>(1, 1)\<close> the
  only cell of a 1 by 1 receiver meets the occupied cell \<open>[1][1]\<close> of \<open>other\<close> and the code
  answers true, while no cell of \<open>other\<close> lands inside the receiver. At the column
  offset \<open>-1\<close> the code reads \<open>other.data[0][-1]\<close>, which is \<open>undefined\<close> and so \<open>!= E\<close>, and
  answers true on an empty \<open>other\<close>: a cell outside the bounds was looked at. At the row
  offset \<open>-1\<close> the code throws.
\<close>

theorem Bitmap_isOverlapping_spec_counterexample:
  "Bitmap_isOverlapping 1 1 (Bitmap [[style_R]]) (Bitmap [[E, E], [E, style_R]]) = Some True
   \<and> \<not> overlaps_spec 1 1 (Bitmap [[style_R]]) (Bitmap [[E, E], [E, style_R]])
   \<and> Bitmap_isOverlapping 0 (- 1) (Bitmap [[style_R]]) (Bitmap [[E]]) = Some True
   \<and> \<not> overlaps_spec 0 (- 1) (Bitmap [[style_R]]) (Bitmap [[E]])
   \<and> \<not> overlaps_spec 0 (- 1) (Bitmap [[E]]) (Bitmap [[style_R]])
   \<and> Bitmap_isOverlapping (- 1) 0 (Bitmap [[style_R], [style_R]]) (Bitmap [[E]]) = None"
  by code_simp

subsection \<open>removeFilledRows\<close>

lemma Bitmap_isRowFilled_row:
  assumes "Bitmap_cols b = Some C" and "row < length (data b)" and "length (data b ! row) = C"
  shows "Bitmap_isRowFilled (int row) b = Some (filled (data b ! row))"
proof -
  have "for_any (\<lambda>col. nth_js (data b) (int row) \<bind> (\<lambda>r. Some (nth_js r (int col) = Some E))) [0..<C]
          = Some (\<exists>col\<in>set [0..<C]. data b ! row ! col = E)"
    using assms by (intro for_any_Some) (simp add: nth_js_nat)
  moreover have "(\<exists>col\<in>set [0..<C]. data b ! row ! col = E) \<longleftrightarrow> \<not> filled (data b ! row)"
    using assms(3) by (auto simp: filled_def list_all_length)
  ultimately show ?thesis
    using assms(1) by (simp add: Bitmap_isRowFilled_def)
qed

lemma splice1_nat: "i < length xs \<Longrightarrow> splice1 (int i) xs = take i xs @ drop (Suc i) xs"
  by (simp add: splice1_def Let_def min_def)

text \<open>
  The loop, seen from the outside: the receiver is \<open>count\<close> rows of \<open>E\<close>, then the rows
  still to be looked at (up to \<open>row\<close>), then the rows that were kept.
\<close>

lemma removeFilledRows_loop_invariant:
  assumes "data b = replicate c (replicate C E) @ pending @ done"
    and "list_all (\<lambda>r. length r = C) (pending @ done)"
    and "2 \<le> c + length pending + length done"
  shows "removeFilledRows_loop b (int (c + length pending) - 1) (int c) =
           Some (int (c + length (filter filled pending)),
                 Bitmap (replicate (c + length (filter filled pending)) (replicate C E)
                          @ filter (\<lambda>r. \<not> filled r) pending @ done))"
  using assms
proof (induction pending arbitrary: b c "done" rule: rev_induct)
  case Nil
  then show ?case
    by (subst removeFilledRows_loop.simps) (cases b, simp)
next
  case (snoc p ps)
  let ?row = "c + length ps"
  have row: "int (c + length (ps @ [p])) - 1 = int ?row" by simp
  have cols: "Bitmap_cols b = Some C"
    using snoc.prems by (cases c; cases ps) (auto simp: Bitmap_cols_def)
  have at_row: "data b ! ?row = p" "?row < length (data b)"
    using snoc.prems by (simp_all add: nth_append)
  have len_p: "length p = C" using snoc.prems by simp
  have isf: "Bitmap_isRowFilled (int ?row) b = Some (filled p)"
    using Bitmap_isRowFilled_row [OF cols at_row(2)] at_row(1) len_p by simp
  show ?case
  proof (cases "filled p")
    case True
    have spl: "splice1 (int ?row) (data b) = replicate c (replicate C E) @ ps @ done"
      using splice1_nat [OF at_row(2)] snoc.prems(1) by simp
    have ne: "replicate c (replicate C E) @ ps @ done \<noteq> []"
      using snoc.prems(3) by auto
    have cols': "Bitmap_cols (Bitmap (replicate c (replicate C E) @ ps @ done)) = Some C"
      using snoc.prems(2) ne by (cases c; cases ps; cases "done") (auto simp: Bitmap_cols_def)
    have rem: "Bitmap_removeRow (int ?row) b
                 = Some (Bitmap (replicate (Suc c) (replicate C E) @ ps @ done))"
      using spl cols' by (simp add: Bitmap_removeRow_def)
    have IH: "removeFilledRows_loop (Bitmap (replicate (Suc c) (replicate C E) @ ps @ done))
                 (int (Suc c + length ps) - 1) (int (Suc c)) =
              Some (int (Suc c + length (filter filled ps)),
                 Bitmap (replicate (Suc c + length (filter filled ps)) (replicate C E)
                          @ filter (\<lambda>r. \<not> filled r) ps @ done))"
      using snoc.prems by (intro snoc.IH) simp_all
    have step: "removeFilledRows_loop b (int ?row) (int c)
            = removeFilledRows_loop (Bitmap (replicate (Suc c) (replicate C E) @ ps @ done))
                 (int ?row) (int c + 1)"
      apply (subst removeFilledRows_loop.simps)
      using isf True rem by simp
    have "int (Suc c + length ps) - 1 = int ?row" "int (Suc c) = int c + 1" by simp_all
    with IH step True show ?thesis unfolding row by (simp add: ac_simps)
  next
    case False
    have IH: "removeFilledRows_loop b (int (c + length ps) - 1) (int c) =
              Some (int (c + length (filter filled ps)),
                 Bitmap (replicate (c + length (filter filled ps)) (replicate C E)
                          @ filter (\<lambda>r. \<not> filled r) ps @ (p # done)))"
      using snoc.prems by (intro snoc.IH) simp_all
    have step: "removeFilledRows_loop b (int ?row) (int c)
            = removeFilledRows_loop b (int ?row - 1) (int c)"
      apply (subst removeFilledRows_loop.simps)
      using isf False by simp
    with IH False show ?thesis unfolding row by simp
  qed
qed

lemma Bitmap_removeFilledRows_rectangular:
  assumes "rectangular b R C" and "2 \<le> R"
  shows "Bitmap_removeFilledRows b =
           Some (int (length (filter filled (data b))),
                 Bitmap (replicate (length (filter filled (data b))) (replicate C E)
                          @ filter (\<lambda>r. \<not> filled r) (data b)))"
  using removeFilledRows_loop_invariant [of b 0 C "data b" "[]"] assms
  by (simp add: Bitmap_removeFilledRows_def Bitmap_rows_def rectangular_def)

lemma Bitmap_removeFilledRows_grid:
  assumes "grid b" and "2 \<le> Bitmap_rows b"
  shows "\<exists>removed b'. Bitmap_removeFilledRows b = Some (removed, b') \<and> 0 \<le> removed
           \<and> grid b' \<and> Bitmap_rows b' = Bitmap_rows b \<and> width b' = width b"
proof -
  let ?R = "Bitmap_rows b" and ?C = "width b"
  let ?k = "length (filter filled (data b))"
  let ?b' = "Bitmap (replicate ?k (replicate ?C E) @ filter (\<lambda>r. \<not> filled r) (data b))"
  from assms(1) have rect: "rectangular b ?R ?C" by (simp add: grid_def)
  have len: "?k + length (filter (\<lambda>r. \<not> filled r) (data b)) = ?R"
    using sum_length_filter_compl [of filled "data b"] by (simp add: Bitmap_rows_def)
  have "list_all (\<lambda>r. length r = ?C) (data ?b')"
    using rect by (auto simp: rectangular_def list_all_iff)
  with len have r': "rectangular ?b' ?R ?C" by (simp add: rectangular_def)
  then have "Bitmap_rows ?b' = ?R" by (simp add: rectangular_def Bitmap_rows_def)
  moreover from assms(2) have "1 \<le> ?R" by linarith
  with r' have "width ?b' = ?C" by (rule rectangular_width)
  ultimately have "grid ?b'" using r' assms(2) by (simp add: grid_def)
  then show ?thesis
    using Bitmap_removeFilledRows_rectangular [OF rect assms(2)]
      \<open>Bitmap_rows ?b' = ?R\<close> \<open>width ?b' = ?C\<close>
    by simp
qed

text \<open>
  Claim C2 at a grid of one row that is filled, such as the I block of blocks.ts.
  \<open>isRowFilled(0)\<close> is true, \<open>removeRow(0)\<close> splices the row out and then calls
  \<open>this.cols()\<close>, which reads \<open>this.data[0].length\<close> of an array that is empty by now: the
  call throws instead of returning 1.
\<close>

theorem Bitmap_removeFilledRows_single_row:
  "Bitmap_isRowFilled 0 BLOCK_I = Some True
   \<and> Bitmap_removeRow 0 BLOCK_I = None
   \<and> Bitmap_removeFilledRows BLOCK_I = None
   \<and> Bitmap_removeFilledRows (Bitmap [[style_R]]) = None"
  by code_simp

text \<open>
  On a grid with at least two rows the method does what claim C2 says: every filled
  row is removed, as many rows of \<open>E\<close> are put on top, the other rows keep their order,
  and the count of the removed rows is returned.
\<close>

theorem Bitmap_removeFilledRows_two_rows:
  assumes "rectangular b R C" and "2 \<le> R"
  shows "\<exists>b'. Bitmap_removeFilledRows b = Some (int (length (filter filled (data b))), b')
           \<and> rectangular b' R C
           \<and> data b' = replicate (length (filter filled (data b))) (replicate C E)
                          @ filter (\<lambda>r. \<not> filled r) (data b)"
proof -
  have "length (filter filled (data b)) + length (filter (\<lambda>r. \<not> filled r) (data b)) = R"
    using assms(1) sum_length_filter_compl [of filled "data b"] by (simp add: rectangular_def)
  moreover have "list_all (\<lambda>r. length r = C) (filter (\<lambda>r. \<not> filled r) (data b))"
    using assms(1) by (auto simp: rectangular_def list_all_iff)
  ultimately show ?thesis
    using Bitmap_removeFilledRows_rectangular [OF assms]
    by (auto simp: rectangular_def list_all_iff)
qed

theorem Bitmap_removeFilledRows_two_rows_witness:
  "rectangular (Bitmap [[E, style_R], [style_R, style_R], [style_R, E], [style_B, style_B]]) 4 2
   \<and> Bitmap_removeFilledRows
        (Bitmap [[E, style_R], [style_R, style_R], [style_R, E], [style_B, style_B]])
       = Some (2, Bitmap [[E, E], [E, E], [E, style_R], [style_R, E]])"
proof -
  let ?b = "Bitmap [[E, style_R], [style_R, style_R], [style_R, E], [style_B, style_B]]"
  have h: "rectangular ?b 4 2" by (simp add: rectangular_def)
  from Bitmap_removeFilledRows_two_rows [OF h] obtain b' where
    "Bitmap_removeFilledRows ?b = Some (int (length (filter filled (data ?b))), b')"
    "data b' = replicate (length (filter filled (data ?b))) (replicate 2 E)
                 @ filter (\<lambda>r. \<not> filled r) (data ?b)"
    by auto
  moreover have "filter filled (data ?b) = [[style_R, style_R], [style_B, style_B]]"
    "filter (\<lambda>r. \<not> filled r) (data ?b) = [[E, style_R], [style_R, E]]"
    by (simp_all add: filled_def E_def style_R_def style_B_def)
  ultimately have "Bitmap_removeFilledRows ?b = Some (2, Bitmap [[E, E], [E, E], [E, style_R], [style_R, E]])"
    by (cases b') (simp add: numeral_2_eq_2)
  with h show ?thesis by simp
qed

text \<open>
  In particular, when the bottom row is the only filled one, 1 is returned, a row of
  \<open>E\<close> is on top and the other rows have moved down by one.
\<close>

theorem Bitmap_removeFilledRows_bottom_row:
  assumes "rectangular b R C" and "2 \<le> R"
    and "filled (last (data b))" and "list_all (\<lambda>r. \<not> filled r) (butlast (data b))"
  shows "Bitmap_removeFilledRows b = Some (1, Bitmap (replicate C E # butlast (data b)))"
proof -
  from assms(1,2) have ne: "data b \<noteq> []" by (auto simp: rectangular_def)
  then have split: "data b = butlast (data b) @ [last (data b)]" by simp
  have "filter filled (data b) = [last (data b)]"
    "filter (\<lambda>r. \<not> filled r) (data b) = butlast (data b)"
    using assms(3,4) by (subst split, simp add: list_all_iff filter_empty_conv filter_id_conv)+
  then show ?thesis
    using Bitmap_removeFilledRows_rectangular [OF assms(1,2)] by simp
qed

theorem Bitmap_removeFilledRows_bottom_row_witness:
  "Bitmap_removeFilledRows (Bitmap [[E, style_R], [style_R, E], [style_B, style_B]])
     = Some (1, Bitmap [[E, E], [E, style_R], [style_R, E]])"
proof -
  let ?b = "Bitmap [[E, style_R], [style_R, E], [style_B, style_B]]"
  have "rectangular ?b 3 2" by (simp add: rectangular_def)
  moreover have "filled (last (data ?b))" "list_all (\<lambda>r. \<not> filled r) (butlast (data ?b))"
    by (simp_all add: filled_def E_def style_R_def style_B_def)
  ultimately show ?thesis
    using Bitmap_removeFilledRows_bottom_row [of ?b 3 2] by (simp add: numeral_2_eq_2)
qed

section \<open>Properties of Shape\<close>

lemma grid_cols: "grid b \<Longrightarrow> Bitmap_cols b = Some (width b)"
  by (auto simp: grid_def intro: rectangular_cols)

lemma Bag_previous_next:
  "index b < length (values' b) \<Longrightarrow> snd (Bag_previous (snd (Bag_next b))) = b"
proof -
  assume a: "index b < length (values' b)"
  let ?n = "length (values' b)"
  have "(?n + (index b + 1) mod ?n - 1) mod ?n = index b"
  proof (cases "index b + 1 = ?n")
    case True
    then show ?thesis using a by simp
  next
    case False
    then have "index b + 1 < ?n" using a by linarith
    then show ?thesis by simp
  qed
  then show ?thesis by (simp add: Bag_previous_snd Bag_next_snd)
qed

lemma Shape_isWithin_grid:
  assumes "Bag_current (rotations sh) = Some cur" and "grid cur" and "grid bd"
  shows "Shape_isWithin sh bd =
           Some (0 \<le> colOffset sh \<and> colOffset sh + int (width cur) \<le> int (width bd)
                 \<and> rowOffset sh + int (Bitmap_rows cur) \<le> int (Bitmap_rows bd))"
  using assms by (auto simp: Shape_isWithin_def grid_cols)

lemma Shape_fitWithin_grid:
  assumes "Bag_current (rotations sh) = Some cur" and "grid cur" and "grid bd"
  shows "Shape_fitWithin sh bd =
           Some (sh\<lparr>colOffset := min (max (colOffset sh) 0) (int (width bd) - int (width cur)),
                    rowOffset := min (rowOffset sh) (int (Bitmap_rows bd) - int (Bitmap_rows cur))\<rparr>)"
  using assms by (auto simp: Shape_fitWithin_def grid_cols Let_def min_def max_def)

subsection \<open>The overlap test on grids\<close>

lemma collides_iff:
  "collides ro co piece bd \<longleftrightarrow>
     (\<exists>r<Bitmap_rows piece. \<exists>c<width piece.
        ro + int r < int (Bitmap_rows bd) \<and> co + int c < int (width bd)
        \<and> data piece ! r ! c \<noteq> E \<and> data bd ! nat (ro + int r) ! nat (co + int c) \<noteq> E)"
  unfolding collides_def list_ex_iff by (simp add: Bex_def) blast

lemma Bitmap_isOverlapping_collides:
  assumes "grid piece" and "grid bd" and "0 \<le> ro" and "0 \<le> co"
  shows "Bitmap_isOverlapping ro co piece bd = Some (collides ro co piece bd)"
proof -
  have "nat (ro + int r) = nat ro + r" "nat (co + int c) = nat co + c"
    "ro + int r < int R' \<longleftrightarrow> nat ro + r < R'"
    "co + int c < int C' \<longleftrightarrow> nat co + c < C'" for r c R' C'
    using assms(3,4) by linarith+
  then show ?thesis
    using Bitmap_isOverlapping_rectangular
            [of piece "Bitmap_rows piece" "width piece" bd "Bitmap_rows bd" "width bd" "nat ro" "nat co"]
          assms
    by (simp add: grid_def collides_iff)
qed

lemma collides_within:
  assumes "0 \<le> ro" and "0 \<le> co"
    and "co + int (width piece) \<le> int (width bd)"
  shows "collides ro co piece bd \<longleftrightarrow>
           (\<exists>r<Bitmap_rows piece. \<exists>c<width piece. nat ro + r < Bitmap_rows bd
              \<and> data piece ! r ! c \<noteq> E \<and> data bd ! (nat ro + r) ! (nat co + c) \<noteq> E)"
proof -
  have eq: "nat (ro + int r) = nat ro + r" "nat (co + int c) = nat co + c"
    "ro + int r < int R' \<longleftrightarrow> nat ro + r < R'" for r c R'
    using assms(1,2) by linarith+
  have col: "co + int c < int (width bd)" if "c < width piece" for c
    using that assms(3) by linarith
  show ?thesis
  proof
    assume "collides ro co piece bd"
    then obtain r c where "r < Bitmap_rows piece" "c < width piece"
      "ro + int r < int (Bitmap_rows bd)" "data piece ! r ! c \<noteq> E"
      "data bd ! nat (ro + int r) ! nat (co + int c) \<noteq> E"
      unfolding collides_iff by blast
    then show "\<exists>r<Bitmap_rows piece. \<exists>c<width piece. nat ro + r < Bitmap_rows bd
              \<and> data piece ! r ! c \<noteq> E \<and> data bd ! (nat ro + r) ! (nat co + c) \<noteq> E"
      unfolding eq by blast
  next
    assume "\<exists>r<Bitmap_rows piece. \<exists>c<width piece. nat ro + r < Bitmap_rows bd
              \<and> data piece ! r ! c \<noteq> E \<and> data bd ! (nat ro + r) ! (nat co + c) \<noteq> E"
    then obtain r c where rc: "r < Bitmap_rows piece" "c < width piece"
      "nat ro + r < Bitmap_rows bd" "data piece ! r ! c \<noteq> E"
      "data bd ! (nat ro + r) ! (nat co + c) \<noteq> E"
      by blast
    from rc(2) have "co + int c < int (width bd)" by (rule col)
    with rc show "collides ro co piece bd"
      unfolding collides_iff eq by blast
  qed
qed

subsection \<open>rotate\<close>

lemma Shape_rotate_grid:
  assumes "index (rotations sh) < length (values' (rotations sh))"
    and "Bag_current (snd (Bag_next (rotations sh))) = Some nxt"
    and "grid nxt" and "grid bd"
    and "co' = min (max (colOffset sh) 0) (int (width bd) - int (width nxt))"
    and "ro' = min (rowOffset sh) (int (Bitmap_rows bd) - int (Bitmap_rows nxt))"
  shows "Shape_rotate sh bd =
           (case Bitmap_isOverlapping ro' co' nxt bd of
              None \<Rightarrow> None
            | Some overlapping \<Rightarrow>
                Some (\<not> overlapping,
                      if overlapping then sh\<lparr>colOffset := co', rowOffset := ro'\<rparr>
                      else sh\<lparr>rotations := snd (Bag_next (rotations sh)),
                              colOffset := co', rowOffset := ro'\<rparr>))"
proof -
  let ?sh1 = "sh\<lparr>rotations := snd (Bag_next (rotations sh))\<rparr>"
  let ?sh2 = "?sh1\<lparr>colOffset := co', rowOffset := ro'\<rparr>"
  have fit: "Shape_fitWithin ?sh1 bd = Some ?sh2"
    using Shape_fitWithin_grid [of ?sh1 nxt bd] assms by simp
  have ov: "Shape_isOverlapping ?sh2 bd = Bitmap_isOverlapping ro' co' nxt bd"
    using assms(2) by (simp add: Shape_isOverlapping_def)
  have prev: "snd (Bag_previous (snd (Bag_next (rotations sh)))) = rotations sh"
    using assms(1) by (rule Bag_previous_next)
  show ?thesis
  proof (cases "Bitmap_isOverlapping ro' co' nxt bd")
    case None
    then show ?thesis by (simp add: Shape_rotate_def fit ov)
  next
    case (Some overlapping)
    then show ?thesis
      by (cases overlapping) (simp_all add: Shape_rotate_def fit ov prev)
  qed
qed





subsection \<open>What a move that fails leaves behind\<close>

lemma reachable_events:
  "reachable g \<Longrightarrow> list_all (\<lambda>(k, e). k < 7) evs \<Longrightarrow> Game_events evs g = Some g'
     \<Longrightarrow> reachable g'"
proof (induction evs arbitrary: g)
  case Nil
  then show ?case by simp
next
  case (Cons ke evs)
  obtain k e where ke: "ke = (k, e)" by (cases ke)
  from Cons.prems(3) obtain g1 where
    g1: "Game_event k e g = Some g1" "Game_events evs g1 = Some g'"
    by (auto simp: ke split: option.splits)
  from Cons.prems(1,2) g1(1) have "reachable g1"
    by (auto simp: ke intro: reachable_event)
  with Cons.IH g1(2) Cons.prems(2) show ?case by simp
qed

text \<open>
  Claim C5 fails for \<open>rotate\<close>, in a game that can be played. After \<open>upright_I_play\<close> the
  upright I block stands at row 11, column 9, next to the I block that was thrown down
  in column 6, and overlaps nothing. \<open>rotate(board)\<close> turns it flat, \<open>fitWithin\<close> moves it
  to column 6, where it overlaps; the rotation is taken back and \<open>false\<close> is returned,
  but the column stays 6: the shape has moved three columns to the left, onto the cells
  of the other block.
\<close>

theorem Shape_rotate_failed_keeps_clamped_offset:
  "\<exists>g sh sh'. (new_Game 0 \<bind> Game_events upright_I_play) = Some g \<and> reachable g
     \<and> state g = PLAYING \<and> Bag_current (shapes g) = Some sh
     \<and> Shape_rotate sh (board g) = Some (False, sh')
     \<and> rowOffset sh = 11 \<and> colOffset sh = 9
     \<and> rowOffset sh' = 11 \<and> colOffset sh' = 6 \<and> rotations sh' = rotations sh
     \<and> Shape_isOverlapping sh (board g) = Some False
     \<and> Shape_isOverlapping sh' (board g) = Some True"
proof -
  have "(new_Game 0 \<bind> Game_events upright_I_play \<bind> (\<lambda>g.
          Bag_current (shapes g) \<bind> (\<lambda>sh.
            Shape_rotate sh (board g) \<bind> (\<lambda>(rotated, sh').
              Some (state g, rotated, rowOffset sh, colOffset sh, rowOffset sh', colOffset sh',
                    rotations sh' = rotations sh, Shape_isOverlapping sh (board g),
                    Shape_isOverlapping sh' (board g))))))
        = Some (PLAYING, False, 11, 9, 11, 6, True, Some False, Some True)"
    by code_simp
  then obtain g0 g sh sh' where run: "new_Game 0 = Some g0" "Game_events upright_I_play g0 = Some g"
    and rest: "state g = PLAYING" "Bag_current (shapes g) = Some sh"
      "Shape_rotate sh (board g) = Some (False, sh')"
      "rowOffset sh = 11" "colOffset sh = 9" "rowOffset sh' = 11" "colOffset sh' = 6"
      "rotations sh' = rotations sh" "Shape_isOverlapping sh (board g) = Some False"
      "Shape_isOverlapping sh' (board g) = Some True"
    by (auto simp: bind_eq_Some_conv)
  have "reachable g0" using reachable_new [of 0 g0] run(1) by simp
  moreover have "list_all (\<lambda>(k, e). k < 7) upright_I_play"
    by (simp add: upright_I_play_def list_all_iff)
  ultimately have "reachable g" using run(2) by (rule reachable_events)
  with run rest show ?thesis by auto
qed

text \<open>
  The other moves do what claim C5 says: when \<open>left\<close>, \<open>right\<close> or \<open>down\<close> returns \<open>false\<close>,
  the shape is what it was before the call.
\<close>

theorem Shape_move_failed_unchanged:
  "(Shape_left sh bd = Some (False, sh') \<longrightarrow> sh' = sh)
   \<and> (Shape_right sh bd = Some (False, sh') \<longrightarrow> sh' = sh)
   \<and> (Shape_down sh bd = Some (False, sh') \<longrightarrow> sh' = sh)"
  by (auto simp: Shape_left_def Shape_right_def Shape_changeColOffset_def Shape_down_def
      Let_def bind_eq_Some_conv split: if_splits)

theorem Shape_move_failed_unchanged_witness:
  "\<exists>sh. new_Shape BLOCK_J = Some sh
     \<and> Shape_left sh (Bitmap_emptyWithSize ROWS COLS) = Some (False, sh)
     \<and> Shape_right (sh\<lparr>colOffset := 7\<rparr>) (Bitmap_emptyWithSize ROWS COLS)
          = Some (False, sh\<lparr>colOffset := 7\<rparr>)
     \<and> Shape_down (sh\<lparr>rowOffset := 13\<rparr>) (Bitmap_emptyWithSize ROWS COLS)
          = Some (False, sh\<lparr>rowOffset := 13\<rparr>)"
proof -
  let ?bd = "Bitmap_emptyWithSize ROWS COLS"
  have "(new_Shape BLOCK_J \<bind> (\<lambda>sh.
           Shape_left sh ?bd \<bind> (\<lambda>(l, _).
           Shape_right (sh\<lparr>colOffset := 7\<rparr>) ?bd \<bind> (\<lambda>(r, _).
           Shape_down (sh\<lparr>rowOffset := 13\<rparr>) ?bd \<bind> (\<lambda>(d, _). Some (l, r, d))))))
         = Some (False, False, False)"
    by code_simp
  then obtain sh l r d where sh: "new_Shape BLOCK_J = Some sh"
    and l: "Shape_left sh ?bd = Some (False, l)"
    and r: "Shape_right (sh\<lparr>colOffset := 7\<rparr>) ?bd = Some (False, r)"
    and d: "Shape_down (sh\<lparr>rowOffset := 13\<rparr>) ?bd = Some (False, d)"
    by (auto simp: bind_eq_Some_conv)
  from l have "l = sh"
    using Shape_move_failed_unchanged [of sh ?bd l] by simp
  moreover from r have "r = sh\<lparr>colOffset := 7\<rparr>"
    using Shape_move_failed_unchanged [of "sh\<lparr>colOffset := 7\<rparr>" ?bd r] by simp
  moreover from d have "d = sh\<lparr>rowOffset := 13\<rparr>"
    using Shape_move_failed_unchanged [of "sh\<lparr>rowOffset := 13\<rparr>" ?bd d] by simp
  ultimately show ?thesis using sh l r d by auto
qed

subsection \<open>The moves on grids\<close>

lemma Shape_isOverlapping_collides:
  assumes "Bag_current (rotations sh) = Some cur" and "grid cur" and "grid bd"
    and "0 \<le> rowOffset sh" and "0 \<le> colOffset sh"
  shows "Shape_isOverlapping sh bd = Some (collides (rowOffset sh) (colOffset sh) cur bd)"
  using assms by (simp add: Shape_isOverlapping_def Bitmap_isOverlapping_collides)

lemma notWithin_or_overlapping_grid:
  assumes "Bag_current (rotations sh) = Some cur" and "grid cur" and "grid bd"
    and "0 \<le> rowOffset sh"
  shows "notWithin_or_overlapping sh bd =
           Some (\<not> (0 \<le> colOffset sh \<and> colOffset sh + int (width cur) \<le> int (width bd)
                    \<and> rowOffset sh + int (Bitmap_rows cur) \<le> int (Bitmap_rows bd)
                    \<and> \<not> collides (rowOffset sh) (colOffset sh) cur bd))"
  using assms
  by (auto simp: notWithin_or_overlapping_def Shape_isWithin_grid Shape_isOverlapping_collides)

lemma Shape_down_grid:
  assumes "Bag_current (rotations sh) = Some cur" and "grid cur" and "grid bd"
    and "0 \<le> rowOffset sh"
  shows "Shape_down sh bd =
           Some (if 0 \<le> colOffset sh \<and> colOffset sh + int (width cur) \<le> int (width bd)
                    \<and> rowOffset sh + 1 + int (Bitmap_rows cur) \<le> int (Bitmap_rows bd)
                    \<and> \<not> collides (rowOffset sh + 1) (colOffset sh) cur bd
                 then (True, sh\<lparr>rowOffset := rowOffset sh + 1\<rparr>) else (False, sh))"
  using assms notWithin_or_overlapping_grid [of "sh\<lparr>rowOffset := rowOffset sh + 1\<rparr>" cur bd]
  by (simp add: Shape_down_def Let_def)

lemma Shape_changeColOffset_grid:
  assumes "Bag_current (rotations sh) = Some cur" and "grid cur" and "grid bd"
    and "0 \<le> rowOffset sh"
  shows "Shape_changeColOffset c sh bd =
           Some (if 0 \<le> c \<and> c + int (width cur) \<le> int (width bd)
                    \<and> rowOffset sh + int (Bitmap_rows cur) \<le> int (Bitmap_rows bd)
                    \<and> \<not> collides (rowOffset sh) c cur bd
                 then (True, sh\<lparr>colOffset := c\<rparr>) else (False, sh))"
  using assms notWithin_or_overlapping_grid [of "sh\<lparr>colOffset := c\<rparr>" cur bd]
  by (simp add: Shape_changeColOffset_def Let_def)

lemma Shape_resetPosition_grid:
  assumes "Bag_current (rotations sh) = Some cur" and "fits cur bd" and "grid bd"
  shows "Shape_resetPosition sh bd =
           Some (\<not> collides 0 ((int (width bd) - int (width cur)) div 2) cur bd,
                 sh\<lparr>rowOffset := 0, colOffset := (int (width bd) - int (width cur)) div 2\<rparr>)"
proof -
  let ?c = "(int (width bd) - int (width cur)) div 2"
  have "0 \<le> ?c" using assms(2) by (simp add: fits_def)
  then have "Shape_isOverlapping (sh\<lparr>rowOffset := 0, colOffset := ?c\<rparr>) bd
               = Some (collides 0 ?c cur bd)"
    using assms by (simp add: Shape_isOverlapping_collides fits_def)
  then show ?thesis
    using assms by (simp add: Shape_resetPosition_def grid_cols fits_def)
qed

lemma collides_empty: "\<not> collides ro co piece (Bitmap_emptyWithSize R C)" if "0 \<le> ro" "0 \<le> co"
proof -
  have "data (Bitmap_emptyWithSize R C) ! nat (ro + int r) ! nat (co + int c) = E"
    if "ro + int r < int R" "co + int c < int (width (Bitmap_emptyWithSize R C))" for r c
  proof -
    from that(1) have R: "nat (ro + int r) < R" using \<open>0 \<le> ro\<close> by linarith
    then have "width (Bitmap_emptyWithSize R C) = C"
      by (cases R) (simp_all add: width_def Bitmap_emptyWithSize_def)
    with that(2) have "nat (co + int c) < C" using \<open>0 \<le> co\<close> by linarith
    with R show ?thesis by (simp add: Bitmap_emptyWithSize_def)
  qed
  then show ?thesis
    by (auto simp: collides_iff Bitmap_rows_def Bitmap_emptyWithSize_def)
qed

subsection \<open>resetPosition\<close>

lemma BLOCKS_shapes:
  "list_all (\<lambda>blk. case new_Shape blk of
                      None \<Rightarrow> False
                    | Some sh \<Rightarrow> length (values' (rotations sh)) = 4
                        \<and> list_all (\<lambda>p. fits p (Bitmap_emptyWithSize ROWS COLS)) (values' (rotations sh)))
            BLOCKS"
  by code_simp

lemma grid_emptyWithSize: "1 \<le> R \<Longrightarrow> grid (Bitmap_emptyWithSize R C)"
  by (cases R)
    (simp_all add: grid_def Bitmap_emptyWithSize_def Bitmap_rows_def width_def rectangular_def
       list_all_iff)

lemma Shape_resetPosition_test:
  assumes "Bag_current (rotations sh) = Some cur" and "grid cur" and "grid bd"
    and "c = (int (width bd) - int (width cur)) div 2"
  shows "Shape_resetPosition sh bd =
           (case Bitmap_isOverlapping 0 c cur bd of
              None \<Rightarrow> None
            | Some overlapping \<Rightarrow> Some (\<not> overlapping, sh\<lparr>rowOffset := 0, colOffset := c\<rparr>))"
  using assms
  by (simp add: Shape_resetPosition_def Shape_isOverlapping_def grid_cols split: option.splits)

lemma BLOCKS_resetPosition:
  assumes "blk \<in> set BLOCKS"
  shows "\<exists>sh0. new_Shape blk = Some sh0
            \<and> (\<forall>i<4. \<forall>ro co. \<exists>sh'.
                  Shape_resetPosition
                    (sh0\<lparr>rotations := (rotations sh0)\<lparr>index := i\<rparr>, rowOffset := ro, colOffset := co\<rparr>)
                    (Bitmap_emptyWithSize ROWS COLS) = Some (True, sh'))"
proof -
  let ?bd = "Bitmap_emptyWithSize ROWS COLS"
  have bd: "grid ?bd" by (simp add: grid_emptyWithSize ROWS_def)
  from assms BLOCKS_shapes obtain sh0 where sh0: "new_Shape blk = Some sh0"
    and len: "length (values' (rotations sh0)) = 4"
    and all: "list_all (\<lambda>p. fits p ?bd) (values' (rotations sh0))"
    by (auto simp: list_all_iff split: option.splits)
  have "\<exists>sh'. Shape_resetPosition
                  (sh0\<lparr>rotations := (rotations sh0)\<lparr>index := i\<rparr>, rowOffset := ro, colOffset := co\<rparr>)
                  ?bd = Some (True, sh')" if "i < 4" for i ro co
  proof -
    let ?sh = "sh0\<lparr>rotations := (rotations sh0)\<lparr>index := i\<rparr>, rowOffset := ro, colOffset := co\<rparr>"
    let ?cur = "values' (rotations sh0) ! i"
    have cur: "Bag_current (rotations ?sh) = Some ?cur"
      using that len by (simp add: Bag_current_def nth_js_nat)
    have fit: "fits ?cur ?bd"
      using all that len by (simp add: list_all_length)
    then have "0 \<le> (int (width ?bd) - int (width ?cur)) div 2" by (simp add: fits_def)
    then have "\<not> collides 0 ((int (width ?bd) - int (width ?cur)) div 2) ?cur ?bd"
      by (intro collides_empty) simp_all
    then show ?thesis
      using Shape_resetPosition_grid [OF cur fit bd] by simp
  qed
  with sh0 show ?thesis by blast
qed

text \<open>
  Claim C7, as the code has it. Take a shape whose current rotation is a rectangular grid
  with at least one row that is no wider than the board, and a rectangular board with at
  least one row. Then \<open>resetPosition(board)\<close> sets \<open>rowOffset\<close> to 0 and \<open>colOffset\<close> to
  \<open>(board.cols - currentCols) div 2\<close>, which is not negative and keeps the piece inside
  the columns of the board, and returns \<open>false\<close> exactly when some cell of the piece that
  is not \<open>E\<close> lies, at that position, on a cell of the board that is not \<open>E\<close> (rows of the
  piece below the last row of the board are not looked at). For each of the seven blocks,
  in any of its four rotations and whatever its offsets were, the result on the empty 15
  by 10 board is \<open>true\<close>.
\<close>

theorem Shape_resetPosition_centered:
  assumes "Bag_current (rotations sh) = Some cur" and "grid cur" and "grid bd"
    and "width cur \<le> width bd"
  shows "\<exists>c overlapping.
           c = (int (width bd) - int (width cur)) div 2
         \<and> 0 \<le> c \<and> c + int (width cur) \<le> int (width bd)
         \<and> overlapping =
             (\<exists>r<Bitmap_rows cur. \<exists>c'<width cur. r < Bitmap_rows bd
                 \<and> data cur ! r ! c' \<noteq> E \<and> data bd ! r ! (nat c + c') \<noteq> E)
         \<and> overlapping = collides 0 c cur bd
         \<and> Shape_resetPosition sh bd = Some (\<not> overlapping, sh\<lparr>rowOffset := 0, colOffset := c\<rparr>)
         \<and> (\<forall>blk\<in>set BLOCKS. \<exists>sh0. new_Shape blk = Some sh0
              \<and> (\<forall>i<4. \<forall>ro co. \<exists>sh'.
                    Shape_resetPosition
                      (sh0\<lparr>rotations := (rotations sh0)\<lparr>index := i\<rparr>, rowOffset := ro, colOffset := co\<rparr>)
                      (Bitmap_emptyWithSize ROWS COLS) = Some (True, sh')))"
proof -
  let ?c = "(int (width bd) - int (width cur)) div 2"
  have b: "0 \<le> ?c" "?c + int (width cur) \<le> int (width bd)"
    using assms(4) by simp_all
  have sem: "collides 0 ?c cur bd =
             (\<exists>r<Bitmap_rows cur. \<exists>c'<width cur. r < Bitmap_rows bd
                 \<and> data cur ! r ! c' \<noteq> E \<and> data bd ! r ! (nat ?c + c') \<noteq> E)"
    using collides_within [OF _ b(1) b(2), of 0] by simp
  have "Bitmap_isOverlapping 0 ?c cur bd = Some (collides 0 ?c cur bd)"
    using assms(2,3) _ b(1) by (rule Bitmap_isOverlapping_collides) simp
  then have "Shape_resetPosition sh bd
               = Some (\<not> collides 0 ?c cur bd, sh\<lparr>rowOffset := 0, colOffset := ?c\<rparr>)"
    using Shape_resetPosition_test [OF assms(1-3) refl] by simp
  with b sem show ?thesis
    using BLOCKS_resetPosition by blast
qed

theorem Shape_resetPosition_centered_witness:
  "\<exists>sh. new_Shape BLOCK_T = Some sh
     \<and> Shape_resetPosition (sh\<lparr>rowOffset := 5, colOffset := 1\<rparr>)
          (Bitmap (replicate 10 E # [E, E, E, E, style_R, E, E, E, E, E] # replicate 13 (replicate 10 E)))
         = Some (False, sh\<lparr>rowOffset := 0, colOffset := 3\<rparr>)
     \<and> Shape_resetPosition (sh\<lparr>rowOffset := 5, colOffset := 1\<rparr>) (Bitmap_emptyWithSize ROWS COLS)
         = Some (True, sh\<lparr>rowOffset := 0, colOffset := 3\<rparr>)"
proof -
  let ?T = "Bitmap [[style_P, style_P, style_P], [E, style_P, E]]"
  let ?bd = "Bitmap (replicate 10 E # [E, E, E, E, style_R, E, E, E, E, E] # replicate 13 (replicate 10 E))"
  let ?em = "Bitmap_emptyWithSize ROWS COLS"
  have "(new_Shape BLOCK_T \<bind> (\<lambda>sh. Some (Bag_current (rotations sh)))) = Some (Some ?T)"
    by code_simp
  then obtain sh where sh: "new_Shape BLOCK_T = Some sh" and cur: "Bag_current (rotations sh) = Some ?T"
    by (auto simp: bind_eq_Some_conv)
  let ?sh = "sh\<lparr>rowOffset := 5, colOffset := 1\<rparr>"
  have cur': "Bag_current (rotations ?sh) = Some ?T" using cur by simp
  have f: "grid ?T" "grid ?bd" "grid ?em" by code_simp+
  have w: "(int (width ?bd) - int (width ?T)) div 2 = 3" "(int (width ?em) - int (width ?T)) div 2 = 3"
    "width ?T \<le> width ?bd" "width ?T \<le> width ?em"
    by code_simp+
  have c: "collides 0 3 ?T ?bd" "\<not> collides 0 3 ?T ?em" by code_simp+
  from Shape_resetPosition_centered [OF cur' f(1,2) w(3)]
  obtain c1 o1 where "c1 = (int (width ?bd) - int (width ?T)) div 2"
    and "o1 = collides 0 c1 ?T ?bd"
    and "Shape_resetPosition ?sh ?bd = Some (\<not> o1, ?sh\<lparr>rowOffset := 0, colOffset := c1\<rparr>)"
    by (elim exE conjE) (rule that, assumption+)
  with c(1) w(1)
  have a: "Shape_resetPosition ?sh ?bd = Some (False, sh\<lparr>rowOffset := 0, colOffset := 3\<rparr>)"
    by simp
  from Shape_resetPosition_centered [OF cur' f(1,3) w(4)]
  obtain c2 o2 where "c2 = (int (width ?em) - int (width ?T)) div 2"
    and "o2 = collides 0 c2 ?T ?em"
    and "Shape_resetPosition ?sh ?em = Some (\<not> o2, ?sh\<lparr>rowOffset := 0, colOffset := c2\<rparr>)"
    by (elim exE conjE) (rule that, assumption+)
  with c(2) w(2)
  have b: "Shape_resetPosition ?sh ?em = Some (True, sh\<lparr>rowOffset := 0, colOffset := 3\<rparr>)"
    by simp
  from sh a b show ?thesis by blast
qed

text \<open>
  The claim as the specification words it, for every piece and board, fails on the code.
  On an all-\<open>E\<close> board of 15 rows and 3 columns the flat I block, 4 cells wide, gets
  \<open>colOffset = floor((3 - 4) / 2) = -1\<close>; the overlap test reads \<open>other.data[0][-1]\<close>, which
  is \<open>undefined\<close> and so \<open>!= E\<close>, and \<open>resetPosition\<close> returns \<open>false\<close> although the board has
  no content to overlap.
\<close>

theorem Shape_resetPosition_spec_counterexample:
  "\<exists>sh. new_Shape BLOCK_I = Some sh
     \<and> Bag_current (rotations sh) = Some BLOCK_I
     \<and> list_all (list_all (\<lambda>v. v = E)) (data (Bitmap_emptyWithSize 15 3))
     \<and> Shape_resetPosition sh (Bitmap_emptyWithSize 15 3)
         = Some (False, sh\<lparr>rowOffset := 0, colOffset := - 1\<rparr>)"
proof -
  have "(new_Shape BLOCK_I \<bind> (\<lambda>sh.
           Some (Bag_current (rotations sh) = Some BLOCK_I
             \<and> list_all (list_all (\<lambda>v. v = E)) (data (Bitmap_emptyWithSize 15 3))
             \<and> Shape_resetPosition sh (Bitmap_emptyWithSize 15 3)
                 = Some (False, sh\<lparr>rowOffset := 0, colOffset := - 1\<rparr>))))
        = Some True"
    by code_simp
  then show ?thesis
    by (auto simp: bind_eq_Some_conv)
qed

subsection \<open>The moves keep a shape within the board\<close>

lemma rot_ok_current:
  assumes "rot_ok sh bd"
  shows "\<exists>cur. Bag_current (rotations sh) = Some cur \<and> fits cur bd \<and> grid cur"
  using assms by (simp add: rot_ok_def Bag_current_def nth_js_nat list_all_length fits_def)

lemma rot_ok_next:
  assumes "rot_ok sh bd"
  shows "\<exists>nxt. Bag_current (snd (Bag_next (rotations sh))) = Some nxt \<and> fits nxt bd \<and> grid nxt"
proof -
  let ?n = "length (values' (rotations sh))"
  from assms have "0 < ?n" by (auto simp: rot_ok_def)
  then have "(index (rotations sh) + 1) mod ?n < ?n" by (rule mod_less_divisor)
  with assms show ?thesis
    by (simp add: rot_ok_def Bag_next_snd Bag_current_def nth_js_nat list_all_length fits_def)
qed

lemma within_current:
  "Bag_current (rotations sh) = Some cur \<Longrightarrow>
     within sh bd \<longleftrightarrow>
       0 \<le> colOffset sh \<and> colOffset sh + int (width cur) \<le> int (width bd)
       \<and> 0 \<le> rowOffset sh \<and> rowOffset sh + int (Bitmap_rows cur) \<le> int (Bitmap_rows bd)"
  by (simp add: within_def)

lemma rot_ok_offsets [simp]:
  "rot_ok (sh\<lparr>rowOffset := r\<rparr>) bd = rot_ok sh bd"
  "rot_ok (sh\<lparr>colOffset := c\<rparr>) bd = rot_ok sh bd"
  by (simp_all add: rot_ok_def)

lemma Shape_down_ok:
  assumes "rot_ok sh bd" and "within sh bd" and "grid bd"
  shows "\<exists>moved. Shape_down sh bd
            = Some (moved, if moved then sh\<lparr>rowOffset := rowOffset sh + 1\<rparr> else sh)
          \<and> within (if moved then sh\<lparr>rowOffset := rowOffset sh + 1\<rparr> else sh) bd"
proof -
  from rot_ok_current [OF assms(1)] obtain cur
    where cur: "Bag_current (rotations sh) = Some cur" "grid cur" by blast
  from assms(2) cur have w: "0 \<le> colOffset sh" "colOffset sh + int (width cur) \<le> int (width bd)"
    "0 \<le> rowOffset sh" by (simp_all add: within_current)
  let ?go = "rowOffset sh + 1 + int (Bitmap_rows cur) \<le> int (Bitmap_rows bd)
              \<and> \<not> collides (rowOffset sh + 1) (colOffset sh) cur bd"
  have run: "Shape_down sh bd = Some (if ?go then (True, sh\<lparr>rowOffset := rowOffset sh + 1\<rparr>) else (False, sh))"
    using Shape_down_grid [OF cur assms(3) w(3)] w(1,2) by simp
  show ?thesis
  proof (cases ?go)
    case True
    moreover from True w cur(1) have "within (sh\<lparr>rowOffset := rowOffset sh + 1\<rparr>) bd"
      by (simp add: within_def)
    ultimately show ?thesis using run by (intro exI [of _ True]) simp
  next
    case False
    then show ?thesis using run assms(2) by (intro exI [of _ False]) simp
  qed
qed

lemma Shape_changeColOffset_ok:
  assumes "rot_ok sh bd" and "within sh bd" and "grid bd"
  shows "\<exists>moved. Shape_changeColOffset c sh bd
            = Some (moved, if moved then sh\<lparr>colOffset := c\<rparr> else sh)
          \<and> within (if moved then sh\<lparr>colOffset := c\<rparr> else sh) bd"
proof -
  from rot_ok_current [OF assms(1)] obtain cur
    where cur: "Bag_current (rotations sh) = Some cur" "grid cur" by blast
  from assms(2) cur have w: "rowOffset sh + int (Bitmap_rows cur) \<le> int (Bitmap_rows bd)"
    "0 \<le> rowOffset sh" by (simp_all add: within_current)
  let ?go = "0 \<le> c \<and> c + int (width cur) \<le> int (width bd) \<and> \<not> collides (rowOffset sh) c cur bd"
  have run: "Shape_changeColOffset c sh bd = Some (if ?go then (True, sh\<lparr>colOffset := c\<rparr>) else (False, sh))"
    using Shape_changeColOffset_grid [OF cur assms(3) w(2)] w(1) by simp
  show ?thesis
  proof (cases ?go)
    case True
    moreover from True w cur(1) have "within (sh\<lparr>colOffset := c\<rparr>) bd"
      by (simp add: within_def)
    ultimately show ?thesis using run by (intro exI [of _ True]) simp
  next
    case False
    then show ?thesis using run assms(2) by (intro exI [of _ False]) simp
  qed
qed

lemma Shape_rotate_ok:
  assumes "rot_ok sh bd" and "within sh bd" and "grid bd"
  shows "\<exists>rotated sh'. Shape_rotate sh bd = Some (rotated, sh') \<and> rot_ok sh' bd \<and> within sh' bd"
proof -
  from rot_ok_current [OF assms(1)] obtain cur
    where cur: "Bag_current (rotations sh) = Some cur" "fits cur bd" by blast
  from rot_ok_next [OF assms(1)] obtain nxt
    where nxt: "Bag_current (snd (Bag_next (rotations sh))) = Some nxt" "fits nxt bd" "grid nxt"
    by blast
  define co' where "co' = min (max (colOffset sh) 0) (int (width bd) - int (width nxt))"
  define ro' where "ro' = min (rowOffset sh) (int (Bitmap_rows bd) - int (Bitmap_rows nxt))"
  from assms(2) cur(1) have w: "0 \<le> colOffset sh" "colOffset sh + int (width cur) \<le> int (width bd)"
    "0 \<le> rowOffset sh" "rowOffset sh + int (Bitmap_rows cur) \<le> int (Bitmap_rows bd)"
    by (simp_all add: within_current)
  from nxt(2) have f: "int (width nxt) \<le> int (width bd)" "int (Bitmap_rows nxt) \<le> int (Bitmap_rows bd)"
    by (simp_all add: fits_def)
  have b: "0 \<le> co'" "co' + int (width nxt) \<le> int (width bd)" "co' \<le> colOffset sh"
    "0 \<le> ro'" "ro' + int (Bitmap_rows nxt) \<le> int (Bitmap_rows bd)" "ro' \<le> rowOffset sh"
    using w f unfolding co'_def ro'_def by linarith+
  have idx: "index (rotations sh) < length (values' (rotations sh))"
    using assms(1) by (simp add: rot_ok_def)
  have ov: "Bitmap_isOverlapping ro' co' nxt bd = Some (collides ro' co' nxt bd)"
    using nxt(3) assms(3) b(4) b(1) by (rule Bitmap_isOverlapping_collides)
  let ?no = "sh\<lparr>colOffset := co', rowOffset := ro'\<rparr>"
  let ?yes = "sh\<lparr>rotations := snd (Bag_next (rotations sh)), colOffset := co', rowOffset := ro'\<rparr>"
  have run: "Shape_rotate sh bd =
               Some (\<not> collides ro' co' nxt bd, if collides ro' co' nxt bd then ?no else ?yes)"
    using Shape_rotate_grid [OF idx nxt(1,3) assms(3) co'_def ro'_def] by (simp add: ov)
  have 1: "rot_ok ?no bd" using assms(1) by simp
  have 2: "within ?no bd"
    using cur(1) w b by (simp add: within_def)
  have "(index (rotations sh) + 1) mod length (values' (rotations sh)) < length (values' (rotations sh))"
    using idx by (intro mod_less_divisor) auto
  then have 3: "rot_ok ?yes bd"
    using assms(1) by (simp add: rot_ok_def Bag_next_snd)
  have 4: "within ?yes bd"
    using nxt(1) b by (simp add: within_def)
  show ?thesis
  proof (cases "collides ro' co' nxt bd")
    case True
    with run 1 2 show ?thesis by (intro exI [of _ False] exI [of _ ?no]) simp
  next
    case False
    with run 3 4 show ?thesis by (intro exI [of _ True] exI [of _ ?yes]) simp
  qed
qed

lemma Shape_resetPosition_ok:
  assumes "rot_ok sh bd" and "grid bd"
  shows "\<exists>ok sh'. Shape_resetPosition sh bd = Some (ok, sh') \<and> rot_ok sh' bd \<and> within sh' bd"
proof -
  from rot_ok_current [OF assms(1)] obtain cur
    where cur: "Bag_current (rotations sh) = Some cur" "fits cur bd" by blast
  let ?c = "(int (width bd) - int (width cur)) div 2"
  from cur(2) have "int (width cur) \<le> int (width bd)" "int (Bitmap_rows cur) \<le> int (Bitmap_rows bd)"
    by (simp_all add: fits_def)
  then have "0 \<le> ?c" "?c + int (width cur) \<le> int (width bd)"
    "(0::int) + int (Bitmap_rows cur) \<le> int (Bitmap_rows bd)"
    by linarith+
  then have "within (sh\<lparr>rowOffset := 0, colOffset := ?c\<rparr>) bd"
    using cur(1) by (simp add: within_def)
  then show ?thesis
    using Shape_resetPosition_grid [OF cur assms(2)] assms(1) by simp
qed

subsection \<open>copyFrom keeps the dimensions of the receiver\<close>

lemma for_each_invariant:
  assumes "P s" and "\<And>i s. i \<in> set xs \<Longrightarrow> P s \<Longrightarrow> \<exists>s'. f i s = Some s' \<and> P s'"
  shows "\<exists>s'. for_each f xs s = Some s' \<and> P s'"
  using assms
proof (induction xs arbitrary: s)
  case Nil
  then show ?case by simp
next
  case (Cons i xs)
  from Cons.prems(2) [of i s] Cons.prems(1) obtain s1 where s1: "f i s = Some s1" "P s1"
    by auto
  from Cons.IH [OF s1(2)] Cons.prems(2) obtain s' where "for_each f xs s1 = Some s'" "P s'"
    by auto
  with s1 show ?case by simp
qed

lemma Bitmap_set_rectangular:
  assumes "rectangular b R C" and "0 \<le> row" and "row < int R" and "0 \<le> col" and "col < int C"
  shows "\<exists>b'. Bitmap_set row col v b = Some b' \<and> rectangular b' R C"
proof -
  from assms have r: "nat row < length (data b)" "length (data b ! nat row) = C"
    by (simp_all add: rectangular_def list_all_length)
  then have "nth_js (data b) row = Some (data b ! nat row)"
    using assms(2) by (intro nth_js_Some)
  moreover have "rectangular (Bitmap ((data b)[nat row := (data b ! nat row)[nat col := v]])) R C"
    using assms(1) r by (auto simp: rectangular_def list_all_length nth_list_update)
  ultimately show ?thesis
    using assms(4,5) r(2) by (simp add: Bitmap_set_def)
qed

lemma Bitmap_copyFrom_grid:
  assumes "grid this" and "grid other" and "0 \<le> ro" and "0 \<le> co"
  shows "\<exists>this'. Bitmap_copyFrom ro co other this = Some this' \<and> grid this'
           \<and> Bitmap_rows this' = Bitmap_rows this \<and> width this' = width this"
proof -
  let ?R = "Bitmap_rows this" and ?C = "width this"
  let ?maxRows = "min (int ?R) (ro + int (Bitmap_rows other))"
  let ?maxCols = "min (int ?C) (co + int (width other))"
  let ?P = "\<lambda>b. rectangular b ?R ?C"
  let ?cell = "\<lambda>row col this'. nth_js (data other) (row - ro) \<bind> (\<lambda>otherRow.
                 nth_js otherRow (col - co) \<bind> (\<lambda>value.
                   if value \<noteq> E then Bitmap_set row col value this' else Some this'))"
  have ot: "rectangular other (Bitmap_rows other) (width other)"
    using assms(2) by (simp add: grid_def)
  have cell: "\<exists>s'. ?cell row col s = Some s' \<and> ?P s'"
    if "row \<in> set [ro..?maxRows - 1]" "col \<in> set [co..?maxCols - 1]" "?P s" for row col s
  proof -
    from that(1,2) assms(3,4) have r: "0 \<le> row" "row < int ?R" "0 \<le> row - ro"
        "nat (row - ro) < Bitmap_rows other"
      and c: "0 \<le> col" "col < int ?C" "0 \<le> col - co" "nat (col - co) < width other"
      by auto
    have 1: "nth_js (data other) (row - ro) = Some (data other ! nat (row - ro))"
      using r by (intro nth_js_Some) (simp_all add: Bitmap_rows_def)
    have 2: "nth_js (data other ! nat (row - ro)) (col - co)
               = Some (data other ! nat (row - ro) ! nat (col - co))"
      using r c rectangular_row_length [OF ot r(4)] by (intro nth_js_Some) simp_all
    show ?thesis
      using Bitmap_set_rectangular [OF that(3) r(1,2) c(1,2)] that(3) by (simp add: 1 2)
  qed
  have inner: "\<exists>s'. for_each (?cell row) [co..?maxCols - 1] s = Some s' \<and> ?P s'"
    if "row \<in> set [ro..?maxRows - 1]" "?P s" for row s
    using that(2) cell [OF that(1)] by (rule for_each_invariant)
  have "?P this" using assms(1) by (simp add: grid_def)
  then have "\<exists>s'. for_each (\<lambda>row. for_each (?cell row) [co..?maxCols - 1]) [ro..?maxRows - 1] this
                 = Some s' \<and> ?P s'"
    using inner by (rule for_each_invariant)
  then obtain this' where t: "for_each (\<lambda>row. for_each (?cell row) [co..?maxCols - 1])
                                [ro..?maxRows - 1] this = Some this'" "?P this'"
    by blast
  have "Bitmap_copyFrom ro co other this = Some this'"
    using t(1) assms(1,2) by (simp add: Bitmap_copyFrom_def grid_cols Let_def)
  moreover have "Bitmap_rows this' = ?R" using t(2) by (simp add: rectangular_def Bitmap_rows_def)
  moreover have "1 \<le> ?R" using assms(1) by (simp add: grid_def)
  moreover from this t(2) have "width this' = ?C" by (intro rectangular_width)
  ultimately show ?thesis using t(2) by (simp add: grid_def)
qed

section \<open>Properties of Game\<close>

lemma same_dims_rot_ok:
  "Bitmap_rows bd' = Bitmap_rows bd \<Longrightarrow> width bd' = width bd \<Longrightarrow> rot_ok sh bd' = rot_ok sh bd"
  by (simp add: rot_ok_def fits_def)

lemma same_dims_within:
  "Bitmap_rows bd' = Bitmap_rows bd \<Longrightarrow> width bd' = width bd \<Longrightarrow> within sh bd' = within sh bd"
  by (simp add: within_def split: option.splits)

lemma Bag_current_store:
  "index b < length (values' b) \<Longrightarrow> Bag_current (Bag_store_current x b) = Some x"
  by (simp add: Bag_current_def Bag_store_current_def nth_js_nat)

lemma Bag_store_current_same:
  "Bag_current b = Some x \<Longrightarrow> Bag_store_current x b = b"
  by (auto simp: Bag_current_def Bag_store_current_def nth_js_nat split: if_splits)

lemma game_ok_fields [simp]:
  "game_ok (g\<lparr>state := s\<rparr>) = game_ok g"
  "game_ok (g\<lparr>lines := l\<rparr>) = game_ok g"
  "game_ok (g\<lparr>score := c\<rparr>) = game_ok g"
  "game_ok (g\<lparr>lastStep := t\<rparr>) = game_ok g"
  "game_ok (g\<lparr>lastUpdate := t\<rparr>) = game_ok g"
  by (simp_all add: game_ok_def shapes_ok_def split: option.splits)

lemma shapes_ok_fields [simp]:
  "shapes_ok (g\<lparr>state := s\<rparr>) = shapes_ok g"
  "shapes_ok (g\<lparr>lines := l\<rparr>) = shapes_ok g"
  "shapes_ok (g\<lparr>score := c\<rparr>) = shapes_ok g"
  "shapes_ok (g\<lparr>lastStep := t\<rparr>) = shapes_ok g"
  "shapes_ok (g\<lparr>lastUpdate := t\<rparr>) = shapes_ok g"
  by (simp_all add: shapes_ok_def)

lemma game_ok_current:
  assumes "game_ok g"
  shows "\<exists>sh. Bag_current (shapes g) = Some sh \<and> rot_ok sh (board g) \<and> within sh (board g)"
proof -
  from assms obtain sh where sh: "Bag_current (shapes g) = Some sh" "within sh (board g)"
    by (auto simp: game_ok_def split: option.splits)
  moreover from assms sh(1) have "rot_ok sh (board g)"
    by (auto simp: game_ok_def shapes_ok_def Bag_current_def nth_js_nat list_all_length
        split: if_splits)
  ultimately show ?thesis by blast
qed

lemma shapes_ok_store:
  assumes "shapes_ok g" and "rot_ok sh' (board g)" and "i < length (values' (shapes g))"
  shows "game_ok (g\<lparr>shapes := \<lparr>values' = (values' (shapes g))[i := sh'], index = i\<rparr>\<rparr>)
           \<longleftrightarrow> within sh' (board g)"
proof -
  have "list_all (\<lambda>sh. rot_ok sh (board g)) ((values' (shapes g))[i := sh'])"
    using assms by (auto simp: shapes_ok_def list_all_length nth_list_update)
  then show ?thesis
    using assms by (simp add: game_ok_def shapes_ok_def Bag_current_def nth_js_nat)
qed

lemma game_ok_store:
  assumes "game_ok g" and "rot_ok sh' (board g)" and "within sh' (board g)"
  shows "game_ok (g\<lparr>shapes := Bag_store_current sh' (shapes g)\<rparr>)"
proof -
  from assms(1) have i: "index (shapes g) < length (values' (shapes g))" "shapes_ok g"
    by (simp_all add: game_ok_def)
  have "Bag_store_current sh' (shapes g)
          = \<lparr>values' = (values' (shapes g))[index (shapes g) := sh'], index = index (shapes g)\<rparr>"
    by (simp add: Bag_store_current_def)
  then show ?thesis
    using shapes_ok_store [OF i(2) assms(2) i(1)] assms(3) by simp
qed

lemma Game_nextShape_ok:
  assumes "shapes_ok g" and "k < length (values' (shapes g))"
  shows "\<exists>g'. Game_nextShape k g = Some g' \<and> game_ok g' \<and> board g' = board g
           \<and> lines g' = lines g \<and> score g' = score g
           \<and> length (values' (shapes g')) = length (values' (shapes g))"
proof -
  let ?sh = "values' (shapes g) ! k"
  have ok: "rot_ok ?sh (board g)" "grid (board g)"
    using assms by (simp_all add: shapes_ok_def list_all_length)
  from Shape_resetPosition_ok [OF ok] obtain okay sh'
    where r: "Shape_resetPosition ?sh (board g) = Some (okay, sh')" "rot_ok sh' (board g)"
      "within sh' (board g)" by blast
  let ?g2 = "g\<lparr>shapes := \<lparr>values' = (values' (shapes g))[k := sh'], index = k\<rparr>\<rparr>"
  have g2: "game_ok ?g2"
    using shapes_ok_store [OF assms(1) r(2) assms(2)] r(3) by simp
  have "Game_nextShape k g = Some (if \<not> okay then ?g2\<lparr>state := GAME_OVER\<rparr> else ?g2)"
    using assms(2) r(1)
    by (simp add: Game_nextShape_def Bag_random_def Bag_current_def nth_js_nat Let_def
        Bag_store_current_def)
  with g2 show ?thesis by (cases okay) simp_all
qed

lemma Game_move_ok:
  assumes "game_ok g"
  shows "\<exists>g'. Game_left g = Some g' \<and> game_ok g' \<and> board g' = board g
            \<and> length (values' (shapes g')) = length (values' (shapes g))"
    and "\<exists>g'. Game_right g = Some g' \<and> game_ok g' \<and> board g' = board g
            \<and> length (values' (shapes g')) = length (values' (shapes g))"
    and "\<exists>g'. Game_rotate g = Some g' \<and> game_ok g' \<and> board g' = board g
            \<and> length (values' (shapes g')) = length (values' (shapes g))"
proof -
  from game_ok_current [OF assms] obtain sh where sh: "Bag_current (shapes g) = Some sh"
    "rot_ok sh (board g)" "within sh (board g)" by blast
  from assms have bd: "grid (board g)" by (simp add: game_ok_def shapes_ok_def)
  have store: "game_ok (g\<lparr>shapes := Bag_store_current sh' (shapes g)\<rparr>)"
    if "rot_ok sh' (board g)" "within sh' (board g)" for sh'
    using assms that by (rule game_ok_store)
  have len: "length (values' (Bag_store_current sh' (shapes g))) = length (values' (shapes g))" for sh'
    by (simp add: Bag_store_current_def)
  from Shape_changeColOffset_ok [OF sh(2,3) bd, of "colOffset sh - 1"] obtain moved
    where l: "Shape_left sh (board g) = Some (moved, if moved then sh\<lparr>colOffset := colOffset sh - 1\<rparr> else sh)"
      "within (if moved then sh\<lparr>colOffset := colOffset sh - 1\<rparr> else sh) (board g)"
    by (auto simp: Shape_left_def)
  have "rot_ok (if moved then sh\<lparr>colOffset := colOffset sh - 1\<rparr> else sh) (board g)"
    using sh(2) by simp
  from store [OF this l(2)] show "\<exists>g'. Game_left g = Some g' \<and> game_ok g' \<and> board g' = board g
            \<and> length (values' (shapes g')) = length (values' (shapes g))"
    using sh(1) l(1) len by (simp add: Game_left_def)
  from Shape_changeColOffset_ok [OF sh(2,3) bd, of "colOffset sh + 1"] obtain moved
    where r: "Shape_right sh (board g) = Some (moved, if moved then sh\<lparr>colOffset := colOffset sh + 1\<rparr> else sh)"
      "within (if moved then sh\<lparr>colOffset := colOffset sh + 1\<rparr> else sh) (board g)"
    by (auto simp: Shape_right_def)
  have "rot_ok (if moved then sh\<lparr>colOffset := colOffset sh + 1\<rparr> else sh) (board g)"
    using sh(2) by simp
  from store [OF this r(2)] show "\<exists>g'. Game_right g = Some g' \<and> game_ok g' \<and> board g' = board g
            \<and> length (values' (shapes g')) = length (values' (shapes g))"
    using sh(1) r(1) len by (simp add: Game_right_def)
  from Shape_rotate_ok [OF sh(2,3) bd] obtain rotated sh'
    where t: "Shape_rotate sh (board g) = Some (rotated, sh')" "rot_ok sh' (board g)"
      "within sh' (board g)" by blast
  from store [OF t(2,3)] show "\<exists>g'. Game_rotate g = Some g' \<and> game_ok g' \<and> board g' = board g
            \<and> length (values' (shapes g')) = length (values' (shapes g))"
    using sh(1) t(1) len by (simp add: Game_rotate_def)
qed

subsection \<open>moveDown and throwDown\<close>

lemma Shape_copyTo_ok:
  assumes "rot_ok sh bd" and "within sh bd" and "grid bd"
  shows "\<exists>bd'. Shape_copyTo sh bd = Some bd' \<and> grid bd'
           \<and> Bitmap_rows bd' = Bitmap_rows bd \<and> width bd' = width bd"
proof -
  from rot_ok_current [OF assms(1)] obtain cur
    where cur: "Bag_current (rotations sh) = Some cur" "grid cur" by blast
  from assms(2) cur(1) have "0 \<le> rowOffset sh" "0 \<le> colOffset sh"
    by (simp_all add: within_current)
  from Bitmap_copyFrom_grid [OF assms(3) cur(2) this] show ?thesis
    using cur(1) by (simp add: Shape_copyTo_def)
qed

lemma Game_landed_ok:
  assumes "game_ok g" and "k < length (values' (shapes g))"
    and "Bag_current (shapes g) = Some sh"
  shows "\<exists>board1 removed board2 g'.
           Shape_copyTo sh (board g) = Some board1
         \<and> Bitmap_removeFilledRows board1 = Some (removed, board2)
         \<and> Game_landed k g = Some g' \<and> game_ok g'
         \<and> board g' = board2 \<and> lines g' = lines g + removed
         \<and> score g' = score g + (if removed < 4 then (lines g + removed) * 10 else 1000)
         \<and> Bitmap_rows (board g') = Bitmap_rows (board g) \<and> width (board g') = width (board g)
         \<and> length (values' (shapes g')) = length (values' (shapes g))"
proof -
  from game_ok_current [OF assms(1)] assms(3) have sh: "rot_ok sh (board g)" "within sh (board g)"
    by simp_all
  from assms(1) have bd: "grid (board g)" "2 \<le> Bitmap_rows (board g)"
    and all: "list_all (\<lambda>sh. rot_ok sh (board g)) (values' (shapes g))"
    by (simp_all add: game_ok_def shapes_ok_def)
  from Shape_copyTo_ok [OF sh bd(1)] obtain board1
    where b1: "Shape_copyTo sh (board g) = Some board1" "grid board1"
      "Bitmap_rows board1 = Bitmap_rows (board g)" "width board1 = width (board g)" by blast
  from Bitmap_removeFilledRows_grid [OF b1(2)] bd(2) b1(3) obtain removed board2
    where b2: "Bitmap_removeFilledRows board1 = Some (removed, board2)" "grid board2"
      "Bitmap_rows board2 = Bitmap_rows board1" "width board2 = width board1" by auto
  let ?g2 = "g\<lparr>board := board2, lines := lines g + removed,
               score := score g + (if removed < 4 then (lines g + removed) * 10 else 1000)\<rparr>"
  have dims: "Bitmap_rows board2 = Bitmap_rows (board g)" "width board2 = width (board g)"
    using b1 b2 by simp_all
  have "list_all (\<lambda>sh. rot_ok sh board2) (values' (shapes g))"
    using all same_dims_rot_ok [OF dims] by (simp add: list_all_iff)
  then have ok2: "shapes_ok ?g2"
    using b2(2) dims bd(2) by (simp add: shapes_ok_def)
  from Game_nextShape_ok [OF ok2] assms(2) obtain g'
    where g': "Game_nextShape k ?g2 = Some g'" "game_ok g'" "board g' = board ?g2"
      "lines g' = lines ?g2" "score g' = score ?g2"
      "length (values' (shapes g')) = length (values' (shapes ?g2))" by auto
  have "Game_landed k g = Some g'"
    using assms(3) b1(1) b2(1) g'(1)
    by (cases "removed < 4") (simp_all add: Game_landed_def Let_def)
  with b1(1) b2(1) g' dims show ?thesis by simp
qed

lemma Game_moveDown_moved:
  assumes "Game_moveDown k g = Some (True, g1)"
  shows "board g1 = board g \<and> lines g1 = lines g \<and> score g1 = score g \<and> state g1 = state g
       \<and> length (values' (shapes g1)) = length (values' (shapes g))"
  using assms
  by (auto simp: Game_moveDown_def Let_def bind_eq_Some_conv Bag_store_current_def
      split: if_splits)

lemma Shape_down_failed:
  "Shape_down sh bd = Some (False, sh') \<Longrightarrow> sh' = sh"
  by (auto simp: Shape_down_def Let_def bind_eq_Some_conv split: if_splits)

lemma Game_moveDown_landed:
  assumes "Game_moveDown k g = Some (False, g')"
  shows "Game_landed k g = Some g'"
proof -
  from assms obtain sh sh' where sh: "Bag_current (shapes g) = Some sh"
    and d: "Shape_down sh (board g) = Some (False, sh')"
    and l: "Game_landed k (g\<lparr>shapes := Bag_store_current sh' (shapes g)\<rparr>) = Some g'"
    by (auto simp: Game_moveDown_def Let_def bind_eq_Some_conv split: if_splits)
  from d have "sh' = sh" by (rule Shape_down_failed)
  with sh l show ?thesis by (simp add: Bag_store_current_same)
qed

lemma Game_moveDown_ok:
  assumes "game_ok g" and "k < length (values' (shapes g))"
    and "Bag_current (shapes g) = Some sh"
  shows "(Shape_down sh (board g) = Some (True, sh\<lparr>rowOffset := rowOffset sh + 1\<rparr>)
          \<and> Game_moveDown k g
              = Some (True, g\<lparr>shapes := Bag_store_current (sh\<lparr>rowOffset := rowOffset sh + 1\<rparr>) (shapes g)\<rparr>)
          \<and> game_ok (g\<lparr>shapes := Bag_store_current (sh\<lparr>rowOffset := rowOffset sh + 1\<rparr>) (shapes g)\<rparr>))
       \<or> (Shape_down sh (board g) = Some (False, sh)
          \<and> (\<exists>g'. Game_moveDown k g = Some (False, g') \<and> Game_landed k g = Some g' \<and> game_ok g'
                 \<and> Bitmap_rows (board g') = Bitmap_rows (board g) \<and> width (board g') = width (board g)
                 \<and> length (values' (shapes g')) = length (values' (shapes g))))"
proof -
  from game_ok_current [OF assms(1)] assms(3) have sh: "rot_ok sh (board g)" "within sh (board g)"
    by simp_all
  from assms(1) have bd: "grid (board g)" by (simp add: game_ok_def shapes_ok_def)
  from Shape_down_ok [OF sh bd] obtain moved
    where d: "Shape_down sh (board g) = Some (moved, if moved then sh\<lparr>rowOffset := rowOffset sh + 1\<rparr> else sh)"
      "within (if moved then sh\<lparr>rowOffset := rowOffset sh + 1\<rparr> else sh) (board g)" by blast
  show ?thesis
  proof (cases moved)
    case True
    let ?sh1 = "sh\<lparr>rowOffset := rowOffset sh + 1\<rparr>"
    have "game_ok (g\<lparr>shapes := Bag_store_current ?sh1 (shapes g)\<rparr>)"
      using assms(1) sh(1) d(2) True by (intro game_ok_store) simp_all
    moreover have "Game_moveDown k g = Some (True, g\<lparr>shapes := Bag_store_current ?sh1 (shapes g)\<rparr>)"
      using assms(3) d(1) True by (simp add: Game_moveDown_def Let_def)
    ultimately show ?thesis using d(1) True by simp
  next
    case False
    from Game_landed_ok [OF assms] obtain g' where g': "Game_landed k g = Some g'" "game_ok g'"
      "Bitmap_rows (board g') = Bitmap_rows (board g)" "width (board g') = width (board g)"
      "length (values' (shapes g')) = length (values' (shapes g))"
      by blast
    have "Game_moveDown k g = Some (False, g')"
      using assms(3) d(1) False g'(1) by (simp add: Game_moveDown_def Let_def Bag_store_current_same)
    with g' d(1) False show ?thesis by simp
  qed
qed

lemma throwDown_calls_result:
  "throwDown_calls k g n gl g' \<Longrightarrow>
     Game_throwDown k g = Some g' \<and> Game_moveDown k gl = Some (False, g') \<and> 1 \<le> n
     \<and> board gl = board g \<and> lines gl = lines g \<and> score gl = score g"
proof (induction rule: throwDown_calls.induct)
  case (last_call k g g')
  then show ?case by (subst Game_throwDown.simps) simp
next
  case (next_call k g g1 n gl g')
  from next_call.hyps(1) have "Game_throwDown k g = Game_throwDown k g1"
    by (subst Game_throwDown.simps) simp
  with next_call.IH Game_moveDown_moved [OF next_call.hyps(1)] show ?case by simp
qed

lemma throwDown_calls_exist:
  assumes "game_ok g" and "k < length (values' (shapes g))"
    and "Bag_current (shapes g) = Some sh"
    and "nat (int (Bitmap_rows (board g)) - rowOffset sh) = d"
  shows "\<exists>n gl g'. throwDown_calls k g n gl g' \<and> n \<le> d \<and> game_ok g'
           \<and> Bitmap_rows (board g') = Bitmap_rows (board g) \<and> width (board g') = width (board g)
           \<and> length (values' (shapes g')) = length (values' (shapes g))"
  using assms
proof (induction d arbitrary: g sh)
  case 0
  from game_ok_current [OF "0.prems"(1)] "0.prems"(3)
  have sh: "rot_ok sh (board g)" "within sh (board g)" by simp_all
  from rot_ok_current [OF sh(1)] obtain cur
    where cur: "Bag_current (rotations sh) = Some cur" "grid cur" by blast
  from cur(2) have "1 \<le> Bitmap_rows cur" by (simp add: grid_def)
  with sh(2) cur(1) have "rowOffset sh < int (Bitmap_rows (board g))"
    by (simp add: within_current)
  with "0.prems"(4) show ?case by simp
next
  case (Suc d)
  from Game_moveDown_ok [OF Suc.prems(1-3)] show ?case
  proof
    let ?sh1 = "sh\<lparr>rowOffset := rowOffset sh + 1\<rparr>"
    let ?g1 = "g\<lparr>shapes := Bag_store_current ?sh1 (shapes g)\<rparr>"
    assume a: "Shape_down sh (board g) = Some (True, ?sh1)
          \<and> Game_moveDown k g = Some (True, ?g1) \<and> game_ok ?g1"
    from Suc.prems(1) have i: "index (shapes g) < length (values' (shapes g))"
      by (simp add: game_ok_def)
    have cur1: "Bag_current (shapes ?g1) = Some ?sh1"
      using Bag_current_store [OF i] by simp
    have k1: "k < length (values' (shapes ?g1))"
      using Suc.prems(2) by (simp add: Bag_store_current_def)
    have d1: "nat (int (Bitmap_rows (board ?g1)) - rowOffset ?sh1) = d"
      using Suc.prems(4) by simp
    from Suc.IH [OF _ k1 cur1 d1] a obtain n gl g'
      where n: "throwDown_calls k ?g1 n gl g'" "n \<le> d" "game_ok g'"
        "Bitmap_rows (board g') = Bitmap_rows (board ?g1)" "width (board g') = width (board ?g1)"
        "length (values' (shapes g')) = length (values' (shapes ?g1))" by blast
    with a have "throwDown_calls k g (Suc n) gl g'" "Suc n \<le> Suc d"
      by (auto intro: throwDown_calls.next_call)
    with n(3-6) show ?thesis
      by (intro exI [of _ "Suc n"] exI [of _ gl] exI [of _ g']) (simp add: Bag_store_current_def)
  next
    assume "Shape_down sh (board g) = Some (False, sh)
          \<and> (\<exists>g'. Game_moveDown k g = Some (False, g') \<and> Game_landed k g = Some g' \<and> game_ok g'
                 \<and> Bitmap_rows (board g') = Bitmap_rows (board g) \<and> width (board g') = width (board g)
                 \<and> length (values' (shapes g')) = length (values' (shapes g)))"
    then obtain g' where g': "Game_moveDown k g = Some (False, g')" "game_ok g'"
      "Bitmap_rows (board g') = Bitmap_rows (board g)" "width (board g') = width (board g)"
      "length (values' (shapes g')) = length (values' (shapes g))" by blast
    from g'(1) have "throwDown_calls k g 1 g g'" by (rule throwDown_calls.last_call)
    with g'(2-5) show ?thesis by (intro exI [of _ 1] exI [of _ g] exI [of _ g']) simp
  qed
qed

text \<open>
  Claim C8. In a game whose active piece lies within the board (\<open>game_ok\<close>: a board of
  at least two rows, shapes that fit it), \<open>throwDown()\<close> returns. It calls \<open>moveDown()\<close>
  \<open>n\<close> times with \<open>1 \<le> n \<le> board.rows\<close>; the first \<open>n - 1\<close> calls return \<open>true\<close> and change
  neither board nor lines nor score, and the last call returns \<open>false\<close>: it is the one
  call that does the landing (\<open>Game_landed\<close>), and its result is the result of the loop.
\<close>

theorem Game_throwDown_terminates:
  assumes "game_ok g" and "k < length (values' (shapes g))"
  shows "\<exists>n gl g'. throwDown_calls k g n gl g' \<and> 1 \<le> n \<and> n \<le> Bitmap_rows (board g)
           \<and> Game_throwDown k g = Some g' \<and> Game_landed k gl = Some g'
           \<and> board gl = board g \<and> lines gl = lines g \<and> score gl = score g"
proof -
  from game_ok_current [OF assms(1)] obtain sh
    where sh: "Bag_current (shapes g) = Some sh" "rot_ok sh (board g)" "within sh (board g)"
    by blast
  from rot_ok_current [OF sh(2)] obtain cur
    where cur: "Bag_current (rotations sh) = Some cur" by blast
  from sh(3) cur have "0 \<le> rowOffset sh" by (simp add: within_current)
  then have le: "nat (int (Bitmap_rows (board g)) - rowOffset sh) \<le> Bitmap_rows (board g)"
    by linarith
  from throwDown_calls_exist [OF assms sh(1) refl] obtain n gl g'
    where c: "throwDown_calls k g n gl g'" "n \<le> nat (int (Bitmap_rows (board g)) - rowOffset sh)"
    by blast
  from throwDown_calls_result [OF c(1)] Game_moveDown_landed [of k gl g'] c le
  show ?thesis by (intro exI [of _ n] exI [of _ gl] exI [of _ g']) simp
qed

lemma Game_throwDown_ok:
  assumes "game_ok g" and "k < length (values' (shapes g))" and "Game_throwDown k g = Some g'"
  shows "game_ok g' \<and> Bitmap_rows (board g') = Bitmap_rows (board g)
       \<and> width (board g') = width (board g)
       \<and> length (values' (shapes g')) = length (values' (shapes g))"
proof -
  from game_ok_current [OF assms(1)] obtain sh where sh: "Bag_current (shapes g) = Some sh"
    by blast
  from throwDown_calls_exist [OF assms(1,2) sh refl] obtain n gl g''
    where c: "throwDown_calls k g n gl g''" "game_ok g''"
      "Bitmap_rows (board g'') = Bitmap_rows (board g)" "width (board g'') = width (board g)"
      "length (values' (shapes g'')) = length (values' (shapes g))" by blast
  from throwDown_calls_result [OF c(1)] assms(3) have "g'' = g'" by simp
  with c show ?thesis by simp
qed

theorem Game_throwDown_terminates_witness:
  "\<exists>g n gl g'. new_Game 0 = Some g \<and> game_ok g \<and> throwDown_calls 0 g n gl g'
      \<and> n \<le> 15 \<and> Game_throwDown 0 g = Some g' \<and> Game_landed 0 gl = Some g'
      \<and> board gl = board g"
proof -
  have "(case new_Game 0 of None \<Rightarrow> False
         | Some g \<Rightarrow> game_ok g \<and> 0 < length (values' (shapes g)) \<and> Bitmap_rows (board g) = 15)"
    by code_simp
  then obtain g where g: "new_Game 0 = Some g" "game_ok g" "0 < length (values' (shapes g))"
    "Bitmap_rows (board g) = 15"
    by (auto split: option.splits)
  from Game_throwDown_terminates [OF g(2,3)] g show ?thesis by auto
qed

subsection \<open>Landing and score\<close>





subsection \<open>The active shape stays within the board\<close>

lemma game_inv_fields [simp]:
  "game_inv (g\<lparr>state := s\<rparr>) = game_inv g"
  "game_inv (g\<lparr>lastStep := t\<rparr>) = game_inv g"
  "game_inv (g\<lparr>lastUpdate := t\<rparr>) = game_inv g"
  by (simp_all add: game_inv_def)

lemma BLOCKS_asShapes:
  "(case Shape_asShapes BLOCKS of
      None \<Rightarrow> False
    | Some all \<Rightarrow> length all = 7
        \<and> list_all (\<lambda>sh. rot_ok sh (Bitmap_emptyWithSize ROWS COLS)) all)"
  by code_simp

lemma emptyWithSize_dims:
  "Bitmap_rows (Bitmap_emptyWithSize ROWS COLS) = ROWS"
  "width (Bitmap_emptyWithSize ROWS COLS) = COLS"
  "grid (Bitmap_emptyWithSize ROWS COLS)"
  by code_simp+

lemma new_Game_inv:
  assumes "k < 7" and "new_Game k = Some g"
  shows "game_inv g"
proof -
  from BLOCKS_asShapes obtain all where all: "Shape_asShapes BLOCKS = Some all" "length all = 7"
    "list_all (\<lambda>sh. rot_ok sh (Bitmap_emptyWithSize ROWS COLS)) all"
    by (auto split: option.splits)
  let ?g0 = "\<lparr>board = Bitmap_emptyWithSize ROWS COLS, shapes = new_Bag all, lastUpdate = 0,
              lastStep = 0, state = PLAYING, lines = 0, score = 0\<rparr>"
  have ok: "shapes_ok ?g0"
    using all(3) emptyWithSize_dims by (simp add: shapes_ok_def new_Bag_def ROWS_def)
  have k: "k < length (values' (shapes ?g0))" using assms(1) all(2) by (simp add: new_Bag_def)
  from Game_nextShape_ok [OF ok k] obtain g' where
    g': "Game_nextShape k ?g0 = Some g'" "game_ok g'" "board g' = board ?g0"
      "length (values' (shapes g')) = length (values' (shapes ?g0))" by blast
  from assms(2) all(1) g'(1) have "g = g'" by (simp add: new_Game_def)
  with g' all(2) emptyWithSize_dims show ?thesis by (simp add: game_inv_def new_Bag_def)
qed

lemma Game_clear_inv:
  assumes "game_inv g" and "k < 7" and "Game_clear k g = Some g'"
  shows "game_inv g'"
proof -
  let ?g0 = "g\<lparr>board := Bitmap_emptyWithSize ROWS COLS, lastUpdate := 0, lastStep := 0,
               state := PLAYING, lines := 0, score := 0\<rparr>"
  from assms(1) have all: "list_all (\<lambda>sh. rot_ok sh (board g)) (values' (shapes g))"
    and dims: "Bitmap_rows (board g) = ROWS" "width (board g) = COLS"
    and len: "length (values' (shapes g)) = 7"
    by (simp_all add: game_inv_def game_ok_def shapes_ok_def)
  have "list_all (\<lambda>sh. rot_ok sh (Bitmap_emptyWithSize ROWS COLS)) (values' (shapes g))"
    using all same_dims_rot_ok [of "Bitmap_emptyWithSize ROWS COLS" "board g"] dims emptyWithSize_dims
    by (simp add: list_all_iff)
  then have ok: "shapes_ok ?g0"
    using emptyWithSize_dims by (simp add: shapes_ok_def ROWS_def)
  have k: "k < length (values' (shapes ?g0))" using assms(2) len by simp
  from Game_nextShape_ok [OF ok k] obtain g'' where
    g': "Game_nextShape k ?g0 = Some g''" "game_ok g''" "board g'' = board ?g0"
      "length (values' (shapes g'')) = length (values' (shapes ?g0))" by blast
  from assms(3) g'(1) have "g' = g''" by (simp add: Game_clear_def)
  with g' len emptyWithSize_dims show ?thesis by (simp add: game_inv_def)
qed

lemma Game_move_inv:
  assumes "game_inv g"
  shows "Game_left g = Some g' \<Longrightarrow> game_inv g'"
    and "Game_right g = Some g' \<Longrightarrow> game_inv g'"
    and "Game_rotate g = Some g' \<Longrightarrow> game_inv g'"
  using assms Game_move_ok [of g] by (auto simp: game_inv_def)

lemma Game_moveDown_inv:
  assumes "game_inv g" and "k < 7" and "Game_moveDown k g = Some (moved, g')"
  shows "game_inv g'"
proof -
  from assms(1) have ok: "game_ok g" and k: "k < length (values' (shapes g))"
    using assms(2) by (simp_all add: game_inv_def)
  from game_ok_current [OF ok] obtain sh where sh: "Bag_current (shapes g) = Some sh" by blast
  from Game_moveDown_ok [OF ok k sh] assms(1,3) show ?thesis
    by (auto simp: game_inv_def Bag_store_current_def)
qed

lemma Game_throwDown_inv:
  assumes "game_inv g" and "k < 7" and "Game_throwDown k g = Some g'"
  shows "game_inv g'"
  using Game_throwDown_ok [of g k g'] assms by (simp add: game_inv_def)

lemma Game_onControlKey_inv:
  assumes "game_inv g" and "k < 7" and "Game_onControlKey k key g = Some (used, g1)"
  shows "game_inv g1"
proof -
  consider (enter) "key = ''enter''" | (r) "key \<noteq> ''enter''" "key = ''r''"
    | (other) "key \<noteq> ''enter''" "key \<noteq> ''r''" by blast
  then show ?thesis
  proof cases
    case enter
    with assms(3) have "g1 = Game_togglePaused g" by (simp add: Game_onControlKey_def)
    with assms(1) show ?thesis by (simp add: Game_togglePaused_def split: State.splits)
  next
    case r
    with assms(3) have "Game_clear k g = Some g1"
      unfolding Game_onControlKey_def by (simp only: if_False if_True) auto
    with assms(1,2) show ?thesis by (rule Game_clear_inv)
  next
    case other
    with assms(3) have "g1 = g"
      unfolding Game_onControlKey_def by (simp only: if_False) simp
    with assms(1) show ?thesis by simp
  qed
qed

lemma Game_onPlayKey_inv:
  assumes "game_inv g" and "k < 7" and "Game_onPlayKey k key g = Some (used, g1)"
  shows "game_inv g1"
proof -
  let ?l = "key = ''arrowleft''" and ?r = "key = ''arrowright''" and ?u = "key = ''arrowup''"
  let ?d = "key = ''arrowdown''" and ?s = "key = ''spacebar'' \<or> key = '' ''"
  consider (left) ?l | (right) "\<not> ?l" ?r | (up) "\<not> ?l" "\<not> ?r" ?u
    | (down) "\<not> ?l" "\<not> ?r" "\<not> ?u" ?d
    | (space) "\<not> ?l" "\<not> ?r" "\<not> ?u" "\<not> ?d" ?s
    | (other) "\<not> ?l" "\<not> ?r" "\<not> ?u" "\<not> ?d" "\<not> ?s" by blast
  then show ?thesis
  proof cases
    case left
    with assms(3) have "Game_left g = Some g1"
      unfolding Game_onPlayKey_def by (simp only: if_True) auto
    with assms(1) show ?thesis by (rule Game_move_inv)
  next
    case right
    with assms(3) have "Game_right g = Some g1"
      unfolding Game_onPlayKey_def by (simp only: if_False if_True) auto
    with assms(1) show ?thesis by (rule Game_move_inv)
  next
    case up
    with assms(3) have "Game_rotate g = Some g1"
      unfolding Game_onPlayKey_def by (simp only: if_False if_True) auto
    with assms(1) show ?thesis by (rule Game_move_inv)
  next
    case down
    with assms(3) have "Game_down k g = Some g1"
      unfolding Game_onPlayKey_def by (simp only: if_False if_True) auto
    then obtain moved where "Game_moveDown k g = Some (moved, g1)"
      by (auto simp: Game_down_def)
    with assms(1,2) show ?thesis by (rule Game_moveDown_inv)
  next
    case space
    with assms(3) have "Game_throwDown k g = Some g1"
      unfolding Game_onPlayKey_def by (simp only: if_False if_True) auto
    with assms(1,2) show ?thesis by (rule Game_throwDown_inv)
  next
    case other
    with assms(3) have "g1 = g"
      unfolding Game_onPlayKey_def by (simp only: if_False) simp
    with assms(1) show ?thesis by simp
  qed
qed

lemma Game_event_inv:
  assumes "game_inv g" and "k < 7" and "Game_event k e g = Some g'"
  shows "game_inv g'"
proof (cases e)
  case (KeyDown key)
  with assms(3) obtain used g1 where c: "Game_onControlKey k key g = Some (used, g1)"
    and r: "(if \<not> used \<and> state g1 = PLAYING then map_option snd (Game_onPlayKey k key g1)
             else Some g1) = Some g'"
    by (auto simp: Game_event_def Game_onKeyEvent_def bind_eq_Some_conv)
  from assms(1,2) c have g1: "game_inv g1" by (rule Game_onControlKey_inv)
  show ?thesis
  proof (cases "\<not> used \<and> state g1 = PLAYING")
    case True
    with r obtain u where p: "Game_onPlayKey k key g1 = Some (u, g')" by auto
    with g1 assms(2) show ?thesis by (rule Game_onPlayKey_inv)
  next
    case False
    with r g1 show ?thesis by auto
  qed
next
  case (Frame now)
  with assms(3) obtain g1 where
    s: "(if state g = PLAYING \<and> now - lastStep g > STEP_SPEED
         then Game_moveDown k g \<bind> (\<lambda>(moved, this'). Some (this'\<lparr>lastStep := now\<rparr>))
         else Some g) = Some g1"
    and u: "(if now - lastUpdate g1 > UPDATE_SPEED then Some (g1\<lparr>lastUpdate := now\<rparr>)
             else Some g1) = Some g'"
    by (auto simp: Game_event_def Game_update_def bind_eq_Some_conv)
  have "game_inv g1"
  proof (cases "state g = PLAYING \<and> now - lastStep g > STEP_SPEED")
    case True
    with s obtain moved g2 where m: "Game_moveDown k g = Some (moved, g2)"
      and "g1 = g2\<lparr>lastStep := now\<rparr>"
      by (auto simp: bind_eq_Some_conv)
    with Game_moveDown_inv [OF assms(1,2) m] show ?thesis by simp
  next
    case False
    with s assms(1) show ?thesis by auto
  qed
  with u show ?thesis by (cases "now - lastUpdate g1 > UPDATE_SPEED") auto
qed

lemma reachable_inv: "reachable g \<Longrightarrow> game_inv g"
  by (induction rule: reachable.induct) (auto intro: new_Game_inv Game_event_inv)

lemma Shape_moves_within:
  assumes "rot_ok sh bd" and "grid bd"
  shows "(\<exists>ok sh'. Shape_resetPosition sh bd = Some (ok, sh') \<and> within sh' bd)
       \<and> (within sh bd \<longrightarrow>
             (\<exists>moved sh'. Shape_left sh bd = Some (moved, sh') \<and> within sh' bd)
           \<and> (\<exists>moved sh'. Shape_right sh bd = Some (moved, sh') \<and> within sh' bd)
           \<and> (\<exists>moved sh'. Shape_down sh bd = Some (moved, sh') \<and> within sh' bd)
           \<and> (\<exists>rotated sh'. Shape_rotate sh bd = Some (rotated, sh') \<and> within sh' bd))"
proof (intro conjI impI)
  show "\<exists>ok sh'. Shape_resetPosition sh bd = Some (ok, sh') \<and> within sh' bd"
    using Shape_resetPosition_ok [OF assms] by blast
next
  assume w: "within sh bd"
  show "\<exists>moved sh'. Shape_left sh bd = Some (moved, sh') \<and> within sh' bd"
    using Shape_changeColOffset_ok [OF assms(1) w assms(2), of "colOffset sh - 1"]
    unfolding Shape_left_def by blast
  show "\<exists>moved sh'. Shape_right sh bd = Some (moved, sh') \<and> within sh' bd"
    using Shape_changeColOffset_ok [OF assms(1) w assms(2), of "colOffset sh + 1"]
    unfolding Shape_right_def by blast
  show "\<exists>moved sh'. Shape_down sh bd = Some (moved, sh') \<and> within sh' bd"
    using Shape_down_ok [OF assms(1) w assms(2)] by blast
  show "\<exists>rotated sh'. Shape_rotate sh bd = Some (rotated, sh') \<and> within sh' bd"
    using Shape_rotate_ok [OF assms(1) w assms(2)] by blast
qed

text \<open>
  Claim C10. In every game that the constructor and the events produce, with the seven
  blocks on the 15 by 10 board, the active shape lies within the board: \<open>0 \<le> colOffset\<close>,
  \<open>colOffset + currentCols \<le> board.cols\<close>, \<open>0 \<le> rowOffset\<close> and \<open>rowOffset + currentRows \<le>
  board.rows\<close>. For a shape whose rotations fit the board, \<open>resetPosition\<close> leaves it within
  the board, and \<open>left\<close>, \<open>right\<close>, \<open>down\<close> and \<open>rotate\<close> keep it there.
\<close>

theorem reachable_piece_within_board:
  assumes "reachable g"
  shows "(\<exists>sh cur currentCols.
            Bag_current (shapes g) = Some sh \<and> Bag_current (rotations sh) = Some cur
          \<and> Bitmap_cols cur = Some currentCols
          \<and> Bitmap_rows (board g) = ROWS \<and> Bitmap_cols (board g) = Some COLS
          \<and> 0 \<le> colOffset sh \<and> colOffset sh + int currentCols \<le> int COLS
          \<and> 0 \<le> rowOffset sh \<and> rowOffset sh + int (Bitmap_rows cur) \<le> int ROWS)
       \<and> (\<forall>sh bd. rot_ok sh bd \<and> grid bd \<longrightarrow>
             (\<exists>ok sh'. Shape_resetPosition sh bd = Some (ok, sh') \<and> within sh' bd)
           \<and> (within sh bd \<longrightarrow>
                 (\<exists>moved sh'. Shape_left sh bd = Some (moved, sh') \<and> within sh' bd)
               \<and> (\<exists>moved sh'. Shape_right sh bd = Some (moved, sh') \<and> within sh' bd)
               \<and> (\<exists>moved sh'. Shape_down sh bd = Some (moved, sh') \<and> within sh' bd)
               \<and> (\<exists>rotated sh'. Shape_rotate sh bd = Some (rotated, sh') \<and> within sh' bd)))"
proof
  from reachable_inv [OF assms] have inv: "game_ok g" "Bitmap_rows (board g) = ROWS"
    "width (board g) = COLS" by (simp_all add: game_inv_def)
  from game_ok_current [OF inv(1)] obtain sh where sh: "Bag_current (shapes g) = Some sh"
    "rot_ok sh (board g)" "within sh (board g)" by blast
  from rot_ok_current [OF sh(2)] obtain cur where cur: "Bag_current (rotations sh) = Some cur"
    "grid cur" by blast
  from inv(1) have "grid (board g)" by (simp add: game_ok_def shapes_ok_def)
  then have "Bitmap_cols (board g) = Some COLS" using inv(3) by (simp add: grid_cols)
  moreover have "Bitmap_cols cur = Some (width cur)" using cur(2) by (rule grid_cols)
  ultimately show "\<exists>sh cur currentCols.
            Bag_current (shapes g) = Some sh \<and> Bag_current (rotations sh) = Some cur
          \<and> Bitmap_cols cur = Some currentCols
          \<and> Bitmap_rows (board g) = ROWS \<and> Bitmap_cols (board g) = Some COLS
          \<and> 0 \<le> colOffset sh \<and> colOffset sh + int currentCols \<le> int COLS
          \<and> 0 \<le> rowOffset sh \<and> rowOffset sh + int (Bitmap_rows cur) \<le> int ROWS"
    using sh(1,3) cur(1) inv(2,3)
    by (intro exI [of _ sh] exI [of _ cur] exI [of _ "width cur"]) (simp add: within_current)
next
  show "\<forall>sh bd. rot_ok sh bd \<and> grid bd \<longrightarrow>
             (\<exists>ok sh'. Shape_resetPosition sh bd = Some (ok, sh') \<and> within sh' bd)
           \<and> (within sh bd \<longrightarrow>
                 (\<exists>moved sh'. Shape_left sh bd = Some (moved, sh') \<and> within sh' bd)
               \<and> (\<exists>moved sh'. Shape_right sh bd = Some (moved, sh') \<and> within sh' bd)
               \<and> (\<exists>moved sh'. Shape_down sh bd = Some (moved, sh') \<and> within sh' bd)
               \<and> (\<exists>rotated sh'. Shape_rotate sh bd = Some (rotated, sh') \<and> within sh' bd))"
    using Shape_moves_within by blast
qed

theorem reachable_piece_within_board_witness:
  "\<exists>g sh cur. (new_Game 0 \<bind> Game_events upright_I_play) = Some g \<and> reachable g
     \<and> Bag_current (shapes g) = Some sh \<and> Bag_current (rotations sh) = Some cur
     \<and> Bitmap_cols cur = Some 1 \<and> Bitmap_rows cur = 4
     \<and> colOffset sh = 9 \<and> rowOffset sh = 11
     \<and> (0::int) \<le> 9 \<and> 9 + int 1 \<le> int COLS \<and> (0::int) \<le> 11 \<and> 11 + int 4 \<le> int ROWS"
proof -
  have "(new_Game 0 \<bind> Game_events upright_I_play \<bind> (\<lambda>g.
          Bag_current (shapes g) \<bind> (\<lambda>sh. Bag_current (rotations sh) \<bind> (\<lambda>cur.
            Some (Bitmap_cols cur, Bitmap_rows cur, colOffset sh, rowOffset sh)))))
        = Some (Some 1, 4, 9, 11)"
    by code_simp
  then obtain g0 g sh cur where run: "new_Game 0 = Some g0" "Game_events upright_I_play g0 = Some g"
    and e: "Bag_current (shapes g) = Some sh" "Bag_current (rotations sh) = Some cur"
      "Bitmap_cols cur = Some 1" "Bitmap_rows cur = 4" "colOffset sh = 9" "rowOffset sh = 11"
    unfolding bind_eq_Some_conv by (elim exE conjE) simp
  have "reachable g0" using reachable_new [of 0 g0] run(1) by simp
  moreover have "list_all (\<lambda>(k, e). k < 7) upright_I_play"
    by (simp add: upright_I_play_def list_all_iff)
  ultimately have r: "reachable g" using run(2) by (rule reachable_events)
  from reachable_piece_within_board [OF r, THEN conjunct1] e
  have "(0::int) \<le> 9 \<and> 9 + int 1 \<le> int COLS \<and> (0::int) \<le> 11 \<and> 11 + int 4 \<le> int ROWS"
    by auto
  with run e r show ?thesis by auto
qed

end
